theory Spec2Isabelle
  imports Main "HOL-Library.Word" "HOL-Library.AList" "HOL-Library.Sublist"
begin

section \<open>Keys, content identifiers and the key codec\<close>

text \<open>
  The migration of \<^verbatim>\<open>ipfs-8-to-9/migration\<close> works on three collaborators whose code
  is not part of the repository: the datastore key type, the CID library and the
  datastore itself. They are modelled here from their contract in the specification
  (sections 3 and 6); everything from \<^verbatim>\<open>swapper.go\<close> and \<^verbatim>\<open>migration.go\<close> is translated
  from the source.
\<close>

type_synonym bytes = string

text \<open>
  Modelled from the spec: the datastore key (\<^verbatim>\<open>ds.Key\<close>), "a namespace (sequence of
  path segments) and a final segment". A key is the list of its segments; the root key
  is the empty list. \<^verbatim>\<open>Parent\<close> drops the final segment, \<^verbatim>\<open>Child\<close> appends the segments of
  another key, \<^verbatim>\<open>BaseNamespace\<close> is the final segment (the empty string for the root),
  and \<^verbatim>\<open>NewKey\<close> of a single segment is the key with that segment only.
\<close>

type_synonym key = "string list"

definition BaseNamespace :: "key \<Rightarrow> string" where
  "BaseNamespace k = (if k = [] then [] else last k)"

definition Parent :: "key \<Rightarrow> key" where
  "Parent k = butlast k"

definition Child :: "key \<Rightarrow> key \<Rightarrow> key" where
  "Child k k2 = k @ k2"

definition NewKey :: "string \<Rightarrow> key" where
  "NewKey s = (if s = [] then [] else [s])"

text \<open>Go's \<^verbatim>\<open>error\<close> values: the distinguished \<^verbatim>\<open>ds.ErrNotFound\<close>, and any other error
  with its message.\<close>

datatype error = ErrNotFound | ErrOther string

text \<open>
  Modelled from the spec: a content identifier (\<^verbatim>\<open>cid.Cid\<close>) has a version, a content
  type and the raw content hash (multihash) it wraps.
\<close>

datatype cid = Cid (Version: nat) (Codec: nat) (Hash: bytes)

text \<open>
  Modelled from the spec: the key codec (\<^verbatim>\<open>dshelp.BinaryFromDsKey\<close>, \<^verbatim>\<open>cid.Cast\<close>,
  \<^verbatim>\<open>dshelp.MultihashToDsKey\<close>), taken as a parameter of every function that uses it.
\<close>

record codec =
  BinaryFromDsKey :: "key \<Rightarrow> error + bytes"
  Cast :: "bytes \<Rightarrow> error + cid"
  MultihashToDsKey :: "bytes \<Rightarrow> key"

text \<open>\<^verbatim>\<open>dsKeyToCid\<close> (swapper.go, "copied from go-ipfs-ds-help").\<close>

definition dsKeyToCid :: "codec \<Rightarrow> key \<Rightarrow> error + cid" where
  "dsKeyToCid cd dsKey =
     (case BinaryFromDsKey cd dsKey of
        Inl err \<Rightarrow> Inl err
      | Inr kb \<Rightarrow> Cast cd kb)"

section \<open>The datastore\<close>

text \<open>
  Modelled from the spec: the key-value store (\<^verbatim>\<open>ds.Batching\<close>) with get, put, delete,
  a sync scoped to a prefix and a keys-only prefix query. Its contents are an association
  list with distinct keys (the order is the order a query streams the keys in). Every
  operation may fail with an I/O error: \<open>faults\<close> says, for the number of operations
  issued so far and the operation, whether it fails and how; a failed operation changes
  nothing. Every operation issued is appended to \<open>trace\<close> with its outcome, so the order
  of the store operations can be stated. Get of an absent key is \<^verbatim>\<open>ErrNotFound\<close>; Delete
  of an absent key is no error. A query that starts streams one entry for each key under
  the prefix, and an entry is a key or an error: \<open>faults\<close> at \<open>OpNext k\<close> says whether the
  entry of \<open>k\<close> is an error (the entry then carries no key). Entries are not operations
  of their own and are not appended to the trace.
\<close>

datatype dsop =
    OpGet key
  | OpPut key bytes
  | OpDelete key
  | OpSync key
  | OpQuery key
  | OpNext key

record datastore =
  kv :: "(key \<times> bytes) list"
  faults :: "nat \<Rightarrow> dsop \<Rightarrow> error option"
  trace :: "(dsop \<times> error option) list"

record Result =
  Key :: key
  Error :: "error option"

definition failure :: "datastore \<Rightarrow> dsop \<Rightarrow> error option" where
  "failure st op = faults st (length (trace st)) op"

definition emit :: "datastore \<Rightarrow> dsop \<Rightarrow> error option \<Rightarrow> datastore" where
  "emit st op r = st\<lparr>trace := trace st @ [(op, r)]\<rparr>"

definition Get :: "datastore \<Rightarrow> key \<Rightarrow> (error + bytes) \<times> datastore" where
  "Get st k =
     (case failure st (OpGet k) of
        Some e \<Rightarrow> (Inl e, emit st (OpGet k) (Some e))
      | None \<Rightarrow>
          (case map_of (kv st) k of
             None \<Rightarrow> (Inl ErrNotFound, emit st (OpGet k) (Some ErrNotFound))
           | Some v \<Rightarrow> (Inr v, emit st (OpGet k) None)))"

definition Put :: "datastore \<Rightarrow> key \<Rightarrow> bytes \<Rightarrow> error option \<times> datastore" where
  "Put st k v =
     (case failure st (OpPut k v) of
        Some e \<Rightarrow> (Some e, emit st (OpPut k v) (Some e))
      | None \<Rightarrow> (None, (emit st (OpPut k v) None)\<lparr>kv := AList.update k v (kv st)\<rparr>))"

definition Delete :: "datastore \<Rightarrow> key \<Rightarrow> error option \<times> datastore" where
  "Delete st k =
     (case failure st (OpDelete k) of
        Some e \<Rightarrow> (Some e, emit st (OpDelete k) (Some e))
      | None \<Rightarrow> (None, (emit st (OpDelete k) None)\<lparr>kv := AList.delete k (kv st)\<rparr>))"

definition Sync :: "datastore \<Rightarrow> key \<Rightarrow> error option \<times> datastore" where
  "Sync st p =
     (case failure st (OpSync p) of
        Some e \<Rightarrow> (Some e, emit st (OpSync p) (Some e))
      | None \<Rightarrow> (None, emit st (OpSync p) None))"

definition entry :: "datastore \<Rightarrow> key \<Rightarrow> Result" where
  "entry st k =
     (case failure st (OpNext k) of
        Some e \<Rightarrow> \<lparr>Key = [], Error = Some e\<rparr>
      | None \<Rightarrow> \<lparr>Key = k, Error = None\<rparr>)"

definition Query :: "datastore \<Rightarrow> key \<Rightarrow> (error + Result list) \<times> datastore" where
  "Query st p =
     (case failure st (OpQuery p) of
        Some e \<Rightarrow> (Inl e, emit st (OpQuery p) (Some e))
      | None \<Rightarrow>
          (Inr (map (entry st) (filter (prefix p) (map fst (kv st)))),
           emit st (OpQuery p) None))"

section \<open>swapper.go\<close>

text \<open>The two tunables, \<^verbatim>\<open>SyncSize\<close> (a \<^verbatim>\<open>uint64\<close>, 20 MiB by default) and \<^verbatim>\<open>NWorkers\<close>
  (4 by default); both are package variables, so they are parameters here.\<close>

record config =
  SyncSize :: "64 word"
  NWorkers :: nat

definition defaultConfig :: config where
  "defaultConfig = \<lparr>SyncSize = 20 * 1024 * 1024, NWorkers = 4\<rparr>"

record Swap =
  Old :: key
  New :: key

text \<open>\<^verbatim>\<open>CidSwapper\<close>: the store is passed to each function as the state it works on;
  \<open>SwapCh\<close> says whether the notification channel is non-nil, and the records sent on it
  are collected in a list that is threaded through the workers.\<close>

record CidSwapper =
  Prefix :: key
  SwapCh :: bool

definition send :: "CidSwapper \<Rightarrow> Swap list \<Rightarrow> Swap \<Rightarrow> Swap list" where
  "send cswap ch s = (if SwapCh cswap then ch @ [s] else ch)"

text \<open>The \<^verbatim>\<open>swapWorker\<close> struct (its \<^verbatim>\<open>store\<close> field is the state passed along).\<close>

record swapWorker =
  swapped :: "64 word"
  curSyncSize :: "64 word"
  syncPrefix :: key
  toDelete :: "key list"

definition swapWorker_sync :: "swapWorker \<Rightarrow> datastore \<Rightarrow> error option \<times> datastore" where
  "swapWorker_sync sw st = Sync st (syncPrefix sw)"

text \<open>The loop of \<^verbatim>\<open>syncAndDelete\<close> over \<^verbatim>\<open>sw.toDelete\<close>: it returns at the first failed
  delete.\<close>

fun deleteKeys :: "key list \<Rightarrow> datastore \<Rightarrow> error option \<times> datastore" where
  "deleteKeys [] st = (None, st)"
| "deleteKeys (k # ks) st =
     (case Delete st k of
        (Some err, st') \<Rightarrow> (Some err, st')
      | (None, st') \<Rightarrow> deleteKeys ks st')"

definition swapWorker_syncAndDelete ::
  "swapWorker \<Rightarrow> datastore \<Rightarrow> error option \<times> swapWorker \<times> datastore" where
  "swapWorker_syncAndDelete sw st =
     (case swapWorker_sync sw st of
        (Some err, st1) \<Rightarrow> (Some err, sw, st1)
      | (None, st1) \<Rightarrow>
          (case deleteKeys (toDelete sw) st1 of
             (Some err, st2) \<Rightarrow> (Some err, sw, st2)
           | (None, st2) \<Rightarrow> (None, sw\<lparr>toDelete := []\<rparr>, st2)))"

definition swapWorker_swap ::
  "config \<Rightarrow> swapWorker \<Rightarrow> datastore \<Rightarrow> key \<Rightarrow> key \<Rightarrow> error option \<times> swapWorker \<times> datastore" where
  "swapWorker_swap cfg sw st old new =
     (case Get st old of
        (Inl err, st1) \<Rightarrow> (Some err, sw, st1)
      | (Inr v, st1) \<Rightarrow>
          (let vLen = (of_nat (length v) :: 64 word) in
           case Put st1 new v of
             (Some err, st2) \<Rightarrow> (Some err, sw, st2)
           | (None, st2) \<Rightarrow>
               (let sw1 = sw\<lparr>toDelete := toDelete sw @ [old],
                              swapped := swapped sw + 1,
                              curSyncSize := curSyncSize sw + vLen\<rparr>
                in if SyncSize cfg \<le> curSyncSize sw1
                   then swapWorker_syncAndDelete (sw1\<lparr>curSyncSize := 0\<rparr>) st2
                   else (None, sw1, st2))))"

text \<open>The local variables of a worker function: its \<^verbatim>\<open>swapWorker\<close> and its error
  counter.\<close>

record locals =
  sw :: swapWorker
  errored :: "64 word"

definition newLocals :: "CidSwapper \<Rightarrow> locals" where
  "newLocals cswap =
     \<lparr>sw = \<lparr>swapped = 0, curSyncSize = 0, syncPrefix = Prefix cswap, toDelete = []\<rparr>,
      errored = 0\<rparr>"

text \<open>One iteration of the loop of \<^verbatim>\<open>CidSwapper.swapWorker\<close> over the results channel.
  The state is the worker's locals, the records sent on \<^verbatim>\<open>SwapCh\<close> so far, and the
  store.\<close>

definition swapWorker_body ::
  "codec \<Rightarrow> config \<Rightarrow> CidSwapper \<Rightarrow> bool \<Rightarrow> Result \<Rightarrow>
   locals \<times> Swap list \<times> datastore \<Rightarrow> locals \<times> Swap list \<times> datastore" where
  "swapWorker_body cd cfg cswap dryRun res s =
     (case s of (l, ch, st) \<Rightarrow>
        (case Error res of
           Some e \<Rightarrow> (l\<lparr>errored := errored l + 1\<rparr>, ch, st)
         | None \<Rightarrow>
             (let oldKey = Key res in
              case dsKeyToCid cd (NewKey (BaseNamespace oldKey)) of
                Inl err \<Rightarrow> (l, ch, st)
              | Inr c \<Rightarrow>
                  if Version c = 0 then (l, ch, st)
                  else
                    (let mh = Hash c;
                         newKey = Child (Parent oldKey) (MultihashToDsKey cd mh)
                     in if dryRun
                        then (l\<lparr>sw := (sw l)\<lparr>swapped := swapped (sw l) + 1\<rparr>\<rparr>,
                              send cswap ch \<lparr>Old = oldKey, New = newKey\<rparr>, st)
                        else
                          (case swapWorker_swap cfg (sw l) st oldKey newKey of
                             (Some err, sw', st') \<Rightarrow>
                               (l\<lparr>sw := sw', errored := errored l + 1\<rparr>, ch, st')
                           | (None, sw', st') \<Rightarrow>
                               (l\<lparr>sw := sw'\<rparr>,
                                send cswap ch \<lparr>Old = oldKey, New = newKey\<rparr>, st'))))))"

primrec swapWorker_loop ::
  "codec \<Rightarrow> config \<Rightarrow> CidSwapper \<Rightarrow> bool \<Rightarrow> Result list \<Rightarrow>
   locals \<times> Swap list \<times> datastore \<Rightarrow> locals \<times> Swap list \<times> datastore" where
  "swapWorker_loop cd cfg cswap dryRun [] s = s"
| "swapWorker_loop cd cfg cswap dryRun (res # rs) s =
     swapWorker_loop cd cfg cswap dryRun rs (swapWorker_body cd cfg cswap dryRun res s)"

text \<open>The end of a worker function: the final \<^verbatim>\<open>syncAndDelete\<close> and the final \<^verbatim>\<open>sync\<close>
  "for deletions", each counted when it fails, and the pair returned.\<close>

definition finalSync :: "locals \<Rightarrow> datastore \<Rightarrow> (64 word \<times> 64 word) \<times> datastore" where
  "finalSync l st =
     (case swapWorker_syncAndDelete (sw l) st of
        (err, sw', st1) \<Rightarrow>
          (let e1 = (if err \<noteq> None then errored l + 1 else errored l) in
           case swapWorker_sync sw' st1 of
             (err2, st2) \<Rightarrow>
               (let e2 = (if err2 \<noteq> None then e1 + 1 else e1) in
                ((swapped sw', e2), st2))))"

definition swapWorker_end ::
  "bool \<Rightarrow> locals \<Rightarrow> datastore \<Rightarrow> (64 word \<times> 64 word) \<times> datastore" where
  "swapWorker_end dryRun l st =
     (if \<not> dryRun then finalSync l st else ((swapped (sw l), errored l), st))"

definition CidSwapper_swapWorker ::
  "codec \<Rightarrow> config \<Rightarrow> CidSwapper \<Rightarrow> bool \<Rightarrow> Result list \<Rightarrow> Swap list \<times> datastore \<Rightarrow>
   (64 word \<times> 64 word) \<times> Swap list \<times> datastore" where
  "CidSwapper_swapWorker cd cfg cswap dryRun resultsCh s =
     (case s of (ch, st) \<Rightarrow>
        (case swapWorker_loop cd cfg cswap dryRun resultsCh (newLocals cswap, ch, st) of
           (l, ch', st') \<Rightarrow>
             (case swapWorker_end dryRun l st' of
                (out, st'') \<Rightarrow> (out, ch', st''))))"

text \<open>One iteration of the loop of \<^verbatim>\<open>CidSwapper.unswapWorker\<close>; the state has the
  de-duplication map \<^verbatim>\<open>unswappedMap\<close> as well.\<close>

definition unswapWorker_body ::
  "config \<Rightarrow> CidSwapper \<Rightarrow> Swap \<Rightarrow>
   locals \<times> (key \<rightharpoonup> key) \<times> Swap list \<times> datastore \<Rightarrow>
   locals \<times> (key \<rightharpoonup> key) \<times> Swap list \<times> datastore" where
  "unswapWorker_body cfg cswap r s =
     (case s of (l, unswappedMap, ch, st) \<Rightarrow>
        (case swapWorker_swap cfg (sw l) st (New r) (Old r) of
           (err, swker, st1) \<Rightarrow>
             if err = Some ErrNotFound then
               (case unswappedMap (New r) of
                  None \<Rightarrow> (l\<lparr>sw := swker, errored := errored l + 1\<rparr>, unswappedMap, ch, st1)
                | Some swappedTo \<Rightarrow>
                    (case swapWorker_sync swker st1 of
                       (ignored, st2) \<Rightarrow>
                         (case Get st2 swappedTo of
                            (Inl e, st3) \<Rightarrow>
                              (l\<lparr>sw := swker, errored := errored l + 1\<rparr>, unswappedMap, ch, st3)
                          | (Inr v, st3) \<Rightarrow>
                              (case Put st3 (Old r) v of
                                 (perr, st4) \<Rightarrow>
                                   (l\<lparr>sw := swker\<lparr>swapped := swapped swker + 1\<rparr>,
                                      errored := (if perr \<noteq> None then errored l + 1
                                                  else errored l)\<rparr>,
                                    unswappedMap(New r \<mapsto> Old r),
                                    send cswap ch \<lparr>Old = New r, New = Old r\<rparr>,
                                    st4)))))
             else if err \<noteq> None then
               (l\<lparr>sw := swker, errored := errored l + 1\<rparr>, unswappedMap, ch, st1)
             else
               (l\<lparr>sw := swker\<rparr>, unswappedMap(New r \<mapsto> Old r),
                send cswap ch \<lparr>Old = New r, New = Old r\<rparr>, st1)))"

primrec unswapWorker_loop ::
  "config \<Rightarrow> CidSwapper \<Rightarrow> Swap list \<Rightarrow>
   locals \<times> (key \<rightharpoonup> key) \<times> Swap list \<times> datastore \<Rightarrow>
   locals \<times> (key \<rightharpoonup> key) \<times> Swap list \<times> datastore" where
  "unswapWorker_loop cfg cswap [] s = s"
| "unswapWorker_loop cfg cswap (r # rs) s =
     unswapWorker_loop cfg cswap rs (unswapWorker_body cfg cswap r s)"

definition CidSwapper_unswapWorker ::
  "config \<Rightarrow> CidSwapper \<Rightarrow> Swap list \<Rightarrow> Swap list \<times> datastore \<Rightarrow>
   (64 word \<times> 64 word) \<times> Swap list \<times> datastore" where
  "CidSwapper_unswapWorker cfg cswap unswapCh s =
     (case s of (ch, st) \<Rightarrow>
        (case unswapWorker_loop cfg cswap unswapCh (newLocals cswap, Map.empty, ch, st) of
           (l, m, ch', st') \<Rightarrow>
             (case finalSync l st' of
                (out, st'') \<Rightarrow> (out, ch', st''))))"

text \<open>\<^verbatim>\<open>runWorkers\<close> adds up what the workers return (\<^verbatim>\<open>atomic.AddUint64\<close>, so modulo
  \<open>2^64\<close>) and fails when the error total is positive. The argument is the list of the
  pairs the worker goroutines returned.\<close>

definition migrationError :: error where
  "migrationError = ErrOther ''errors happened during the migration. Consider running it again''"

definition CidSwapper_runWorkers :: "(64 word \<times> 64 word) list \<Rightarrow> 64 word \<times> error option" where
  "CidSwapper_runWorkers outs =
     (let total = sum_list (map fst outs);
          nErrors = sum_list (map snd outs)
      in if 0 < nErrors then (total, Some migrationError) else (total, None))"

text \<open>
  \<^verbatim>\<open>CidSwapper.Run\<close> starts \<open>NWorkers\<close> goroutines that all run \<^verbatim>\<open>swapWorker\<close> on the one
  results channel. The goroutines are modelled by their interleavings: a pool holds, for
  each worker, its locals and, once it has returned, the pair it returned; a schedule
  (a list of worker numbers) says which worker moves next. A move of a worker that has
  not returned is one iteration of its loop on the next result of the channel, or, when
  the channel is drained, the end of the function (the final syncs). One move is taken
  as atomic.
\<close>

type_synonym pool = "(locals \<times> (64 word \<times> 64 word) option) list"

definition workerStep ::
  "codec \<Rightarrow> config \<Rightarrow> CidSwapper \<Rightarrow> bool \<Rightarrow> nat \<Rightarrow>
   Result list \<times> pool \<times> Swap list \<times> datastore \<Rightarrow> Result list \<times> pool \<times> Swap list \<times> datastore" where
  "workerStep cd cfg cswap dryRun i s =
     (case s of (rs, ws, ch, st) \<Rightarrow>
        if i < length ws then
          (case ws ! i of
             (l, Some out) \<Rightarrow> s
           | (l, None) \<Rightarrow>
               (case rs of
                  res # rs' \<Rightarrow>
                    (case swapWorker_body cd cfg cswap dryRun res (l, ch, st) of
                       (l', ch', st') \<Rightarrow> (rs', ws[i := (l', None)], ch', st'))
                | [] \<Rightarrow>
                    (case swapWorker_end dryRun l st of
                       (out, st') \<Rightarrow> ([], ws[i := (l, Some out)], ch, st'))))
        else s)"

primrec workerSteps ::
  "codec \<Rightarrow> config \<Rightarrow> CidSwapper \<Rightarrow> bool \<Rightarrow> nat list \<Rightarrow>
   Result list \<times> pool \<times> Swap list \<times> datastore \<Rightarrow> Result list \<times> pool \<times> Swap list \<times> datastore" where
  "workerSteps cd cfg cswap dryRun [] s = s"
| "workerSteps cd cfg cswap dryRun (i # sched) s =
     workerSteps cd cfg cswap dryRun sched (workerStep cd cfg cswap dryRun i s)"

text \<open>After the moves of the schedule the run is completed: worker 0 takes what is left
  on the channel, and every worker that has not returned does so, in order.\<close>

definition completion :: "config \<Rightarrow> Result list \<Rightarrow> nat list" where
  "completion cfg results = replicate (length results) 0 @ [0..<NWorkers cfg]"

definition returned :: "pool \<Rightarrow> (64 word \<times> 64 word) list" where
  "returned ws = map (\<lambda>w. case snd w of Some out \<Rightarrow> out | None \<Rightarrow> (0, 0)) ws"

text \<open>The pairs the workers of a run return, with the records sent and the store; no
  worker runs when the query fails.\<close>

definition runPool ::
  "codec \<Rightarrow> config \<Rightarrow> CidSwapper \<Rightarrow> bool \<Rightarrow> nat list \<Rightarrow> Result list \<Rightarrow>
   Swap list \<times> datastore \<Rightarrow> (64 word \<times> 64 word) list \<times> Swap list \<times> datastore" where
  "runPool cd cfg cswap dryRun sched results s =
     (case s of (ch, st) \<Rightarrow>
        (case workerSteps cd cfg cswap dryRun (sched @ completion cfg results)
                (results, replicate (NWorkers cfg) (newLocals cswap, None), ch, st) of
           (rs, ws, ch', st') \<Rightarrow> (returned ws, ch', st')))"

definition CidSwapper_Run ::
  "codec \<Rightarrow> config \<Rightarrow> CidSwapper \<Rightarrow> bool \<Rightarrow> nat list \<Rightarrow> Swap list \<times> datastore \<Rightarrow>
   (64 word \<times> error option) \<times> Swap list \<times> datastore" where
  "CidSwapper_Run cd cfg cswap dryRun sched s =
     (case s of (ch, st) \<Rightarrow>
        (case Query st (Prefix cswap) of
           (Inl err, st1) \<Rightarrow> ((0, Some err), ch, st1)
         | (Inr results, st1) \<Rightarrow>
             (case runPool cd cfg cswap dryRun sched results (ch, st1) of
                (outs, ch', st2) \<Rightarrow> (CidSwapper_runWorkers outs, ch', st2))))"

text \<open>\<^verbatim>\<open>CidSwapper.Revert\<close>: one worker only.\<close>

definition CidSwapper_Revert ::
  "config \<Rightarrow> CidSwapper \<Rightarrow> Swap list \<Rightarrow> Swap list \<times> datastore \<Rightarrow>
   (64 word \<times> error option) \<times> Swap list \<times> datastore" where
  "CidSwapper_Revert cfg cswap unswapCh s =
     (case CidSwapper_unswapWorker cfg cswap unswapCh s of
        (out, ch', st') \<Rightarrow> (CidSwapper_runWorkers [out], ch', st'))"

section \<open>migration.go\<close>

text \<open>
  The goroutine of \<^verbatim>\<open>Migration.Revert\<close> that scans the backup file: a line is the string
  form of an old key and is taken here as that key. It sends one record per line and
  stops at the first line that does not parse, which sets \<^verbatim>\<open>scannerErr\<close>. The result is
  the records sent on \<^verbatim>\<open>unswapCh\<close> and \<^verbatim>\<open>scannerErr\<close>.
\<close>

fun scanBackup :: "codec \<Rightarrow> key list \<Rightarrow> Swap list \<times> error option" where
  "scanBackup cd [] = ([], None)"
| "scanBackup cd (cidPath # rest) =
     (let cidKey = NewKey (BaseNamespace cidPath);
          pfx = Parent cidPath
      in case dsKeyToCid cd cidKey of
           Inl err \<Rightarrow> ([], Some err)
         | Inr c \<Rightarrow>
             (let mhashPath = Child pfx (MultihashToDsKey cd (Hash c));
                  sw = \<lparr>Old = cidPath, New = mhashPath\<rparr>
              in case scanBackup cd rest of (sws, e) \<Rightarrow> (sw # sws, e)))"

text \<open>
  The collaborators of \<^verbatim>\<open>Migration.Revert\<close> (repository lock, version file, plugin loader,
  file system) are not part of the repository; what each call returns is a field of
  \<open>env\<close>. The actions that change the repository apart from the store are recorded.
\<close>

record env =
  lockErr :: "error option"
  checkVersionErr :: "error option"
  openErr :: "error option"
  osOpenErr :: "error option"
  backupLines :: "key list"
  writeVersionErr :: "error option"
  closeErr :: "error option"
  renameErr :: "error option"

datatype action = WriteVersion string | RenameBackup

definition Migration_Revert ::
  "codec \<Rightarrow> config \<Rightarrow> env \<Rightarrow> datastore \<Rightarrow> error option \<times> action list \<times> datastore" where
  "Migration_Revert cd cfg ev st =
     (case lockErr ev of Some err \<Rightarrow> (Some err, [], st) | None \<Rightarrow>
      case checkVersionErr ev of Some err \<Rightarrow> (Some err, [], st) | None \<Rightarrow>
      case openErr ev of Some err \<Rightarrow> (Some err, [], st) | None \<Rightarrow>
      case osOpenErr ev of Some err \<Rightarrow> (Some err, [], st) | None \<Rightarrow>
      (case scanBackup cd (backupLines ev) of
         (unswapCh, scannerErr) \<Rightarrow>
           (let cidSwapper = \<lparr>Prefix = [], SwapCh = False\<rparr> in
            case CidSwapper_Revert cfg cidSwapper unswapCh ([], st) of
              ((count, err), ch, st') \<Rightarrow>
                if err \<noteq> None then (err, [], st')
                else if scannerErr \<noteq> None then (err, [], st')
                else
                  (case writeVersionErr ev of Some e \<Rightarrow> (Some e, [], st') | None \<Rightarrow>
                   case closeErr ev of Some e \<Rightarrow> (Some e, [WriteVersion ''8''], st') | None \<Rightarrow>
                   case renameErr ev of
                     Some e \<Rightarrow> (Some e, [WriteVersion ''8''], st')
                   | None \<Rightarrow> (None, [WriteVersion ''8'', RenameBackup], st')))))"

section \<open>A small codec and stores for the examples\<close>

text \<open>
  A codec for the examples: the binary form of a one-segment key is the segment itself;
  bytes that start with \<open>Q\<close> are a version-0 identifier, which is its own multihash; bytes
  \<open>1\<close>, a content-type byte and a multihash that starts with \<open>Q\<close> are a version-1
  identifier; a multihash is the segment of its key.
\<close>

definition exBinaryFromDsKey :: "key \<Rightarrow> error + bytes" where
  "exBinaryFromDsKey k =
     (case k of [s] \<Rightarrow> Inr s | _ \<Rightarrow> Inl (ErrOther ''not a one-segment key''))"

definition exCast :: "bytes \<Rightarrow> error + cid" where
  "exCast b =
     (case b of
        [] \<Rightarrow> Inl (ErrOther ''invalid cid'')
      | x # r \<Rightarrow>
          if x = CHR ''Q'' then Inr (Cid 0 112 b)
          else if x = CHR ''1'' then
            (case r of
               c # h \<Rightarrow>
                 if h \<noteq> [] \<and> hd h = CHR ''Q'' then Inr (Cid 1 (of_char c) h)
                 else Inl (ErrOther ''invalid cid'')
             | [] \<Rightarrow> Inl (ErrOther ''invalid cid''))
          else Inl (ErrOther ''invalid cid''))"

definition exCodec :: codec where
  "exCodec = \<lparr>BinaryFromDsKey = exBinaryFromDsKey, Cast = exCast,
              MultihashToDsKey = (\<lambda>h. [h])\<rparr>"

definition noFaults :: "nat \<Rightarrow> dsop \<Rightarrow> error option" where
  "noFaults n op = None"

definition mkStore :: "(key \<times> bytes) list \<Rightarrow> (nat \<Rightarrow> dsop \<Rightarrow> error option) \<Rightarrow> datastore" where
  "mkStore al f = \<lparr>kv = al, faults = f, trace = []\<rparr>"

definition exSwapper :: CidSwapper where
  "exSwapper = \<lparr>Prefix = [''blocks''], SwapCh = True\<rparr>"

text \<open>A fault plan under which exactly the given operation fails, with the given
  error, whenever it is issued.\<close>

definition failOn :: "dsop \<Rightarrow> error \<Rightarrow> nat \<Rightarrow> dsop \<Rightarrow> error option" where
  "failOn bad e n op = (if op = bad then Some e else None)"

definition ioErr :: error where
  "ioErr = ErrOther ''input/output error''"

text \<open>The pairs the workers of a \<^verbatim>\<open>Run\<close> returned (none when the query failed), for
  statements about "the workers' counts".\<close>

definition workerOutputs ::
  "codec \<Rightarrow> config \<Rightarrow> CidSwapper \<Rightarrow> bool \<Rightarrow> nat list \<Rightarrow> Swap list \<times> datastore \<Rightarrow>
   (64 word \<times> 64 word) list" where
  "workerOutputs cd cfg cswap dryRun sched s =
     (case s of (ch, st) \<Rightarrow>
        (case Query st (Prefix cswap) of
           (Inl err, st1) \<Rightarrow> []
         | (Inr results, st1) \<Rightarrow> fst (runPool cd cfg cswap dryRun sched results (ch, st1))))"

text \<open>A bound on the errors a pool can still report: what a returned worker reported,
  and for a running worker its counter and the two final syncs, plus one for each result
  that is still on the channel.\<close>

definition errorBudget :: "locals \<times> (64 word \<times> 64 word) option \<Rightarrow> nat" where
  "errorBudget w =
     (case snd w of Some out \<Rightarrow> unat (snd out) | None \<Rightarrow> unat (errored (fst w)) + 2)"

definition successfulPuts :: "datastore \<Rightarrow> nat" where
  "successfulPuts st =
     length (filter (\<lambda>ev. (case fst ev of OpPut k v \<Rightarrow> snd ev = None | _ \<Rightarrow> False)) (trace st))"

text \<open>The swap count of a pool entry: what a returned worker returned, the counter of a
  running one.\<close>

definition swapCount :: "locals \<times> (64 word \<times> 64 word) option \<Rightarrow> 64 word" where
  "swapCount w = (case snd w of Some out \<Rightarrow> fst out | None \<Rightarrow> swapped (sw (fst w)))"

text \<open>
  The order of the store operations of one worker, as properties of the list of events
  it appends to the trace. \<open>R old new\<close> says that \<open>new\<close> is the key the worker swaps \<open>old\<close>
  for. \<open>putDone\<close>: the value of \<open>old\<close> was read and then put under \<open>new\<close>, both with
  success. \<open>flushed\<close>: after that put, the prefix was synced with success, and only
  deletes were issued since that sync. \<open>syncBeforeDelete\<close>: whenever a delete of a key is
  issued, the events before it are such that the key is flushed.
\<close>

definition isDelete :: "dsop \<Rightarrow> bool" where
  "isDelete op = (case op of OpDelete k \<Rightarrow> True | _ \<Rightarrow> False)"

definition putDone ::
  "(key \<Rightarrow> key \<Rightarrow> bool) \<Rightarrow> (dsop \<times> error option) list \<Rightarrow> key \<Rightarrow> bool" where
  "putDone R tr old =
     (\<exists>a b new v. tr = a @ (OpGet old, None) # (OpPut new v, None) # b \<and> R old new)"

definition flushed ::
  "key \<Rightarrow> (key \<Rightarrow> key \<Rightarrow> bool) \<Rightarrow> (dsop \<times> error option) list \<Rightarrow> key \<Rightarrow> bool" where
  "flushed p R tr old =
     (\<exists>a b c new v.
        tr = a @ (OpGet old, None) # (OpPut new v, None) # b @ (OpSync p, None) # c \<and>
        R old new \<and> (\<forall>e \<in> set c. isDelete (fst e)))"

definition syncBeforeDelete ::
  "key \<Rightarrow> (key \<Rightarrow> key \<Rightarrow> bool) \<Rightarrow> (dsop \<times> error option) list \<Rightarrow> bool" where
  "syncBeforeDelete p R tr =
     (\<forall>a old r b. tr = a @ (OpDelete old, r) # b \<longrightarrow> flushed p R a old)"

text \<open>The key a forward worker swaps an old key for, and the key the reversal of a list
  of records swaps a new key (in the role of the old one) for.\<close>

definition classifiesTo :: "codec \<Rightarrow> key \<Rightarrow> key \<Rightarrow> bool" where
  "classifiesTo cd old new =
     (\<exists>c. dsKeyToCid cd (NewKey (BaseNamespace old)) = Inr c \<and> Version c \<noteq> 0 \<and>
          new = Child (Parent old) (MultihashToDsKey cd (Hash c)))"

definition revertsTo :: "Swap list \<Rightarrow> key \<Rightarrow> key \<Rightarrow> bool" where
  "revertsTo recs old new = (\<lparr>Old = new, New = old\<rparr> \<in> set recs)"

text \<open>The invariant of a worker: the events so far are in order, every pending key has
  had its value put, and the worker syncs the prefix \<open>p\<close>.\<close>

definition workerOrder ::
  "key \<Rightarrow> (key \<Rightarrow> key \<Rightarrow> bool) \<Rightarrow> (dsop \<times> error option) list \<Rightarrow> swapWorker \<Rightarrow> bool" where
  "workerOrder p R tr w =
     (syncBeforeDelete p R tr \<and> (\<forall>k \<in> set (toDelete w). putDone R tr k) \<and> syncPrefix w = p)"

text \<open>
  The key a forward worker swaps a key for, as a function: none for a key that does not
  decode or decodes to a version-0 identifier.
\<close>

definition newKeyOf :: "codec \<Rightarrow> key \<Rightarrow> key option" where
  "newKeyOf cd k =
     (case dsKeyToCid cd (NewKey (BaseNamespace k)) of
        Inl err \<Rightarrow> None
      | Inr c \<Rightarrow>
          if Version c = 0 then None
          else Some (Child (Parent k) (MultihashToDsKey cd (Hash c))))"

text \<open>
  The stores on which a migration can be undone, for the keys \<open>K\<close> a run lists: the keys
  are in the store, no key that one of them is swapped for is in the store, and two
  keys that are swapped for the same key hold the same value.
\<close>

definition wellPlaced :: "(key \<Rightarrow> key option) \<Rightarrow> (key \<rightharpoonup> bytes) \<Rightarrow> key set \<Rightarrow> bool" where
  "wellPlaced t M0 K =
     (K \<subseteq> dom M0 \<and>
      (\<forall>k \<in> K. \<forall>c. t k = Some c \<longrightarrow> M0 c = None) \<and>
      (\<forall>k \<in> K. \<forall>k' \<in> K. t k \<noteq> None \<and> t k = t k' \<longrightarrow> M0 k = M0 k'))"

text \<open>
  The contents \<open>M\<close> of the store during a forward run that started on \<open>M0\<close>, when the keys
  \<open>D\<close> have been taken from the channel and the keys \<open>P\<close> are pending deletion: the new
  key of every swapped key holds its value, a swapped key that is no longer pending is
  gone, and every other key is as it was.
\<close>

definition fwdStore ::
  "(key \<Rightarrow> key option) \<Rightarrow> (key \<rightharpoonup> bytes) \<Rightarrow> key set \<Rightarrow> key set \<Rightarrow> (key \<rightharpoonup> bytes) \<Rightarrow> bool" where
  "fwdStore t M0 D P M =
     (P \<subseteq> {k \<in> D. t k \<noteq> None} \<and>
      (\<forall>k \<in> D. \<forall>c. t k = Some c \<longrightarrow> M c = M0 k) \<and>
      (\<forall>k \<in> D. t k \<noteq> None \<and> k \<notin> P \<longrightarrow> M k = None) \<and>
      (\<forall>x. (x \<notin> D \<or> t x = None) \<and> (\<forall>k \<in> D. t k \<noteq> Some x) \<longrightarrow> M x = M0 x))"

text \<open>The keys pending deletion in the workers of a pool that have not returned.\<close>

definition pendingOf :: "pool \<Rightarrow> key set" where
  "pendingOf ws =
     {k. \<exists>i < length ws. snd (ws ! i) = None \<and> k \<in> set (toDelete (sw (fst (ws ! i))))}"

text \<open>A pool entry without errors: a running worker that has counted none, or a
  returned one that has reported none.\<close>

definition noErrors :: "locals \<times> (64 word \<times> 64 word) option \<Rightarrow> bool" where
  "noErrors w = (case snd w of None \<Rightarrow> errored (fst w) = 0 | Some out \<Rightarrow> snd out = 0)"

text \<open>The invariant of a forward run (not a dry run, with a notification channel) on the
  keys \<open>ks\<close>, of which \<open>done\<close> have been taken from the channel.\<close>

definition forwardInv ::
  "(key \<Rightarrow> key option) \<Rightarrow> (key \<rightharpoonup> bytes) \<Rightarrow> Swap list \<Rightarrow> key list \<Rightarrow> key list \<Rightarrow>
   Result list \<times> pool \<times> Swap list \<times> datastore \<Rightarrow> bool" where
  "forwardInv t M0 ch0 ks done s =
     (case s of (rs, ws, ch, st) \<Rightarrow>
        ks = done @ map Key rs \<and> (\<forall>r \<in> set rs. Error r = None) \<and>
        faults st = noFaults \<and>
        fwdStore t M0 (set done) (pendingOf ws) (map_of (kv st)) \<and>
        ch = ch0 @ map (\<lambda>k. \<lparr>Old = k, New = the (t k)\<rparr>) (filter (\<lambda>k. t k \<noteq> None) done) \<and>
        (\<forall>w \<in> set ws. noErrors w) \<and>
        sum_list (map swapCount ws) = of_nat (length (filter (\<lambda>k. t k \<noteq> None) done)))"

text \<open>
  The contents \<open>M\<close> of the store during the reversal of a forward run that started on
  \<open>M0\<close> and swapped the keys \<open>V\<close>, when the keys \<open>R\<close> have been restored, the new keys \<open>P\<close>
  are pending deletion and \<open>m\<close> is the de-duplication map: a restored key holds its value,
  a key not yet restored is absent, a key that is neither swapped nor a new key is as it
  was, a new key is absent or holds the value of the keys swapped for it, a new key that
  is pending or absent has a map entry that names a restored key swapped for it, and the
  new key of a restored key is absent or pending.
\<close>

definition revStore ::
  "(key \<Rightarrow> key option) \<Rightarrow> (key \<rightharpoonup> bytes) \<Rightarrow> key set \<Rightarrow> key set \<Rightarrow> key set \<Rightarrow>
   (key \<rightharpoonup> key) \<Rightarrow> (key \<rightharpoonup> bytes) \<Rightarrow> bool" where
  "revStore t M0 V R P m M =
     (R \<subseteq> V \<and>
      (\<forall>k \<in> R. M k = M0 k) \<and>
      (\<forall>k \<in> V - R. M k = None) \<and>
      (\<forall>x. x \<notin> V \<and> (\<forall>k \<in> V. t k \<noteq> Some x) \<longrightarrow> M x = M0 x) \<and>
      (\<forall>k \<in> V. \<forall>c. t k = Some c \<longrightarrow> M c = None \<or> M c = M0 k) \<and>
      (\<forall>c. c \<in> P \<or> ((\<exists>k \<in> V. t k = Some c) \<and> M c = None) \<longrightarrow>
           (\<exists>k' \<in> R. m c = Some k' \<and> t k' = Some c)) \<and>
      (\<forall>k \<in> R. \<forall>c. t k = Some c \<longrightarrow> M c = None \<or> c \<in> P))"

text \<open>The invariant of the loop of the reversal worker, when the records of the keys
  \<open>done\<close> have been taken.\<close>

definition reverseInv ::
  "(key \<Rightarrow> key option) \<Rightarrow> (key \<rightharpoonup> bytes) \<Rightarrow> key set \<Rightarrow> key list \<Rightarrow>
   locals \<times> (key \<rightharpoonup> key) \<times> Swap list \<times> datastore \<Rightarrow> bool" where
  "reverseInv t M0 V done s =
     (case s of (l, m, ch, st) \<Rightarrow>
        faults st = noFaults \<and>
        revStore t M0 V (set done) (set (toDelete (sw l))) m (map_of (kv st)) \<and>
        errored l = 0 \<and>
        swapped (sw l) = of_nat (length done))"

text \<open>The key an operation reads, writes or deletes (a sync and a query name a prefix,
  not a key), and the traces that touch keys of a set only.\<close>

definition touches :: "dsop \<Rightarrow> key \<Rightarrow> bool" where
  "touches op z =
     (case op of
        OpGet k \<Rightarrow> k = z
      | OpPut k v \<Rightarrow> k = z
      | OpDelete k \<Rightarrow> k = z
      | OpSync p \<Rightarrow> False
      | OpQuery p \<Rightarrow> False
      | OpNext k \<Rightarrow> False)"

definition touchedIn :: "key set \<Rightarrow> (dsop \<times> error option) list \<Rightarrow> bool" where
  "touchedIn A tr = (\<forall>ev \<in> set tr. \<forall>z. touches (fst ev) z \<longrightarrow> z \<in> A)"

text \<open>The results a worker of a real run swaps (a key that decodes to an identifier of
  version 1 or more), and the keys a trace has a Get of.\<close>

definition candidate :: "codec \<Rightarrow> Result \<Rightarrow> bool" where
  "candidate cd r = (Error r = None \<and> newKeyOf cd (Key r) \<noteq> None)"

definition attempted :: "(dsop \<times> error option) list \<Rightarrow> key \<Rightarrow> bool" where
  "attempted tr k = (OpGet k \<in> fst ` set tr)"

section \<open>Properties\<close>

subsection \<open>The example codec\<close>

lemmas exCodec_defs = dsKeyToCid_def NewKey_def BaseNamespace_def Parent_def Child_def
  exCodec_def exBinaryFromDsKey_def exCast_def

lemma exCodec_v1a: "dsKeyToCid exCodec (NewKey (BaseNamespace [''blocks'', ''1aQx''])) = Inr (Cid 1 97 ''Qx'')"
  by (simp add: exCodec_defs)

lemma exCodec_v1b: "dsKeyToCid exCodec (NewKey (BaseNamespace [''blocks'', ''1bQx''])) = Inr (Cid 1 98 ''Qx'')"
  by (simp add: exCodec_defs)

lemma exCodec_v0: "dsKeyToCid exCodec (NewKey (BaseNamespace [''blocks'', ''Qy''])) = Inr (Cid 0 112 ''Qy'')"
  by (simp add: exCodec_defs)

lemma exCodec_bad: "dsKeyToCid exCodec (NewKey (BaseNamespace [''blocks'', ''zz''])) = Inl (ErrOther ''invalid cid'')"
  by (simp add: exCodec_defs)

lemma exCodec_mh: "MultihashToDsKey exCodec h = [h]"
  by (simp add: exCodec_def)

subsection \<open>Classification of a key (C2)\<close>

text \<open>
  C2. For a key delivered to a swap worker (a result without an error): when the final
  segment does not decode, the iteration changes nothing: the worker's locals (so no
  error is counted), the records sent and the store with its trace (so no operation is
  issued) are as before; the same when it decodes to a version-0 identifier. When it
  decodes to an identifier of version at least 1, the candidate new key is the old key's
  parent with the key of the identifier's multihash as a child: a dry run counts the
  swap and sends the record (old key, new key); a real run calls \<^verbatim>\<open>swap\<close> with the old
  key and that new key and sends that record when \<^verbatim>\<open>swap\<close> succeeds.
\<close>

theorem swapWorker_classifies:
  assumes "Error res = None"
  shows
    "(\<forall>err. dsKeyToCid cd (NewKey (BaseNamespace (Key res))) = Inl err \<longrightarrow>
        swapWorker_body cd cfg cswap dryRun res (l, ch, st) = (l, ch, st)) \<and>
     (\<forall>c. dsKeyToCid cd (NewKey (BaseNamespace (Key res))) = Inr c \<and> Version c = 0 \<longrightarrow>
        swapWorker_body cd cfg cswap dryRun res (l, ch, st) = (l, ch, st)) \<and>
     (\<forall>c newKey.
        dsKeyToCid cd (NewKey (BaseNamespace (Key res))) = Inr c \<and> 1 \<le> Version c \<and>
        newKey = Child (Parent (Key res)) (MultihashToDsKey cd (Hash c)) \<longrightarrow>
        swapWorker_body cd cfg cswap True res (l, ch, st) =
          (l\<lparr>sw := (sw l)\<lparr>swapped := swapped (sw l) + 1\<rparr>\<rparr>,
           send cswap ch \<lparr>Old = Key res, New = newKey\<rparr>, st) \<and>
        (case swapWorker_swap cfg (sw l) st (Key res) newKey of
           (err, sw', st') \<Rightarrow>
             swapWorker_body cd cfg cswap False res (l, ch, st) =
               (if err = None
                then (l\<lparr>sw := sw'\<rparr>, send cswap ch \<lparr>Old = Key res, New = newKey\<rparr>, st')
                else (l\<lparr>sw := sw', errored := errored l + 1\<rparr>, ch, st'))))"
  using assms
  by (auto simp: swapWorker_body_def Let_def split: prod.splits option.splits)

theorem swapWorker_classifies_witness:
  "swapWorker_body exCodec defaultConfig exSwapper False
     \<lparr>Key = [''blocks'', ''zz''], Error = None\<rparr>
     (newLocals exSwapper, [], mkStore [([''blocks'', ''zz''], ''v'')] noFaults)
   = (newLocals exSwapper, [], mkStore [([''blocks'', ''zz''], ''v'')] noFaults) \<and>
   swapWorker_body exCodec defaultConfig exSwapper False
     \<lparr>Key = [''blocks'', ''Qy''], Error = None\<rparr>
     (newLocals exSwapper, [], mkStore [([''blocks'', ''Qy''], ''v'')] noFaults)
   = (newLocals exSwapper, [], mkStore [([''blocks'', ''Qy''], ''v'')] noFaults) \<and>
   swapWorker_body exCodec defaultConfig exSwapper True
     \<lparr>Key = [''blocks'', ''1aQx''], Error = None\<rparr>
     (newLocals exSwapper, [], mkStore [([''blocks'', ''1aQx''], ''v'')] noFaults)
   = (\<lparr>sw = \<lparr>swapped = 1, curSyncSize = 0, syncPrefix = [''blocks''], toDelete = []\<rparr>,
       errored = 0\<rparr>,
      [\<lparr>Old = [''blocks'', ''1aQx''], New = [''blocks'', ''Qx'']\<rparr>],
      mkStore [([''blocks'', ''1aQx''], ''v'')] noFaults)"
  using
    swapWorker_classifies [of "\<lparr>Key = [''blocks'', ''zz''], Error = None\<rparr>" exCodec
      defaultConfig exSwapper False "newLocals exSwapper" "[]"
      "mkStore [([''blocks'', ''zz''], ''v'')] noFaults"]
    swapWorker_classifies [of "\<lparr>Key = [''blocks'', ''Qy''], Error = None\<rparr>" exCodec
      defaultConfig exSwapper False "newLocals exSwapper" "[]"
      "mkStore [([''blocks'', ''Qy''], ''v'')] noFaults"]
    swapWorker_classifies [of "\<lparr>Key = [''blocks'', ''1aQx''], Error = None\<rparr>" exCodec
      defaultConfig exSwapper True "newLocals exSwapper" "[]"
      "mkStore [([''blocks'', ''1aQx''], ''v'')] noFaults"]
  by (simp add: exCodec_v1a exCodec_v0 exCodec_bad exCodec_mh newLocals_def exSwapper_def
      send_def Parent_def Child_def)

subsection \<open>Store operations that do not fail\<close>

lemma trace_emit [simp]: "trace (emit st op r) = trace st @ [(op, r)]"
  and kv_emit [simp]: "kv (emit st op r) = kv st"
  and faults_emit [simp]: "faults (emit st op r) = faults st"
  by (simp_all add: emit_def)

lemma failure_noFaults [simp]: "faults st = noFaults \<Longrightarrow> failure st op = None"
  by (simp add: failure_def noFaults_def)

lemma Get_ok:
  "faults st = noFaults \<Longrightarrow> map_of (kv st) k = Some v \<Longrightarrow>
   Get st k = (Inr v, emit st (OpGet k) None)"
  by (simp add: Get_def)

lemma Put_ok:
  "faults st = noFaults \<Longrightarrow>
   Put st k v = (None, (emit st (OpPut k v) None)\<lparr>kv := AList.update k v (kv st)\<rparr>)"
  by (simp add: Put_def)

lemma Sync_ok: "faults st = noFaults \<Longrightarrow> Sync st p = (None, emit st (OpSync p) None)"
  by (simp add: Sync_def)

lemma deleteKeys_ok:
  "faults st = noFaults \<Longrightarrow>
   deleteKeys ks st =
     (None, st\<lparr>kv := fold AList.delete ks (kv st),
               trace := trace st @ map (\<lambda>k. (OpDelete k, None)) ks\<rparr>)"
proof (induction ks arbitrary: st)
  case Nil
  then show ?case by simp
next
  case (Cons k ks)
  have "faults ((emit st (OpDelete k) None)\<lparr>kv := AList.delete k (kv st)\<rparr>) = noFaults"
    using Cons.prems by simp
  from Cons.IH [OF this] Cons.prems show ?case
    by (simp add: Delete_def emit_def)
qed

lemma syncAndDelete_ok:
  "faults st = noFaults \<Longrightarrow>
   swapWorker_syncAndDelete w st =
     (None, w\<lparr>toDelete := []\<rparr>,
      st\<lparr>kv := fold AList.delete (toDelete w) (kv st),
         trace := trace st @
           (OpSync (syncPrefix w), None) # map (\<lambda>k. (OpDelete k, None)) (toDelete w)\<rparr>)"
  by (simp add: swapWorker_syncAndDelete_def swapWorker_sync_def Sync_ok deleteKeys_ok emit_def)

text \<open>The definitions a run on a concrete store unfolds.\<close>

lemmas run_defs = swapWorker_swap_def Get_def Put_def Delete_def Sync_def failure_def
  emit_def noFaults_def failOn_def swapWorker_syncAndDelete_def swapWorker_sync_def
  send_def newLocals_def mkStore_def exSwapper_def Let_def

subsection \<open>The de-duplication map of the reversal (C7)\<close>

text \<open>
  C7, as stated, fails: the entry of a new key is overwritten by every later record that
  is restored. Reverting the records \<open>(blocks/1aQx, blocks/Qx)\<close> and
  \<open>(blocks/1bQx, blocks/Qx)\<close> on a store that holds \<open>blocks/Qx\<close> restores both old keys
  without an error; the entry of \<open>blocks/Qx\<close> is \<open>blocks/1aQx\<close> after the first record and
  \<open>blocks/1bQx\<close> after the second.
\<close>

theorem first_success_wins_counterexample:
  "fst (snd (unswapWorker_loop defaultConfig exSwapper
       [\<lparr>Old = [''blocks'', ''1aQx''], New = [''blocks'', ''Qx'']\<rparr>]
       (newLocals exSwapper, Map.empty, [], mkStore [([''blocks'', ''Qx''], ''v'')] noFaults)))
     [''blocks'', ''Qx''] = Some [''blocks'', ''1aQx''] \<and>
   fst (snd (unswapWorker_loop defaultConfig exSwapper
       [\<lparr>Old = [''blocks'', ''1aQx''], New = [''blocks'', ''Qx'']\<rparr>,
        \<lparr>Old = [''blocks'', ''1bQx''], New = [''blocks'', ''Qx'']\<rparr>]
       (newLocals exSwapper, Map.empty, [], mkStore [([''blocks'', ''Qx''], ''v'')] noFaults)))
     [''blocks'', ''Qx''] = Some [''blocks'', ''1bQx''] \<and>
   CidSwapper_unswapWorker defaultConfig exSwapper
       [\<lparr>Old = [''blocks'', ''1aQx''], New = [''blocks'', ''Qx'']\<rparr>,
        \<lparr>Old = [''blocks'', ''1bQx''], New = [''blocks'', ''Qx'']\<rparr>]
       ([], mkStore [([''blocks'', ''Qx''], ''v'')] noFaults) =
     ((2, 0),
      [\<lparr>Old = [''blocks'', ''Qx''], New = [''blocks'', ''1aQx'']\<rparr>,
       \<lparr>Old = [''blocks'', ''Qx''], New = [''blocks'', ''1bQx'']\<rparr>],
      \<lparr>kv = [([''blocks'', ''1aQx''], ''v''), ([''blocks'', ''1bQx''], ''v'')],
        faults = noFaults,
        trace = [(OpGet [''blocks'', ''Qx''], None), (OpPut [''blocks'', ''1aQx''] ''v'', None),
                 (OpGet [''blocks'', ''Qx''], None), (OpPut [''blocks'', ''1bQx''] ''v'', None),
                 (OpSync [''blocks''], None), (OpDelete [''blocks'', ''Qx''], None),
                 (OpDelete [''blocks'', ''Qx''], None), (OpSync [''blocks''], None)]\<rparr>)"
  by (simp add: run_defs unswapWorker_body_def CidSwapper_unswapWorker_def finalSync_def
      defaultConfig_def word_le_nat_alt)

text \<open>
  C7, amended: the last restoration wins. One iteration of the reversal loop sets the
  entry of the record's new key to the record's old key, whatever the entry was before,
  when the record is restored: when \<^verbatim>\<open>swap\<close> returns no error, or when it returns
  \<^verbatim>\<open>ErrNotFound\<close>, the map has an entry for the new key and the Get of the key that entry
  names succeeds. In every other case the map is unchanged.
\<close>

theorem unswappedMap_last_wins:
  "(case swapWorker_swap cfg (sw l) st (New r) (Old r) of
      (err, swker, st1) \<Rightarrow>
        (case unswapWorker_body cfg cswap r (l, m, ch, st) of
           (l', m', ch', st') \<Rightarrow>
             (err = None \<longrightarrow> m' = m(New r \<mapsto> Old r)) \<and>
             (err \<noteq> None \<and> err \<noteq> Some ErrNotFound \<longrightarrow> m' = m) \<and>
             (err = Some ErrNotFound \<and> m (New r) = None \<longrightarrow> m' = m) \<and>
             (\<forall>swappedTo. err = Some ErrNotFound \<and> m (New r) = Some swappedTo \<longrightarrow>
                (case Get (snd (swapWorker_sync swker st1)) swappedTo of
                   (Inl e, st3) \<Rightarrow> m' = m
                 | (Inr v, st3) \<Rightarrow> m' = m(New r \<mapsto> Old r)))))"
  by (auto simp: unswapWorker_body_def split: prod.splits option.splits sum.splits)

theorem unswappedMap_last_wins_witness:
  "fst (snd (unswapWorker_body defaultConfig exSwapper
       \<lparr>Old = [''blocks'', ''1bQx''], New = [''blocks'', ''Qx'']\<rparr>
       (newLocals exSwapper, [[''blocks'', ''Qx''] \<mapsto> [''blocks'', ''1aQx'']], [],
        mkStore [([''blocks'', ''Qx''], ''v'')] noFaults))) =
     [[''blocks'', ''Qx''] \<mapsto> [''blocks'', ''1bQx'']] \<and>
   fst (snd (unswapWorker_body defaultConfig exSwapper
       \<lparr>Old = [''blocks'', ''1bQx''], New = [''blocks'', ''Qx'']\<rparr>
       (newLocals exSwapper, [[''blocks'', ''Qx''] \<mapsto> [''blocks'', ''1aQx'']], [],
        mkStore [([''blocks'', ''1aQx''], ''v'')] noFaults))) =
     [[''blocks'', ''Qx''] \<mapsto> [''blocks'', ''1bQx'']]"
  using
    unswappedMap_last_wins [where cfg = defaultConfig and l = "newLocals exSwapper"
      and st = "mkStore [([''blocks'', ''Qx''], ''v'')] noFaults"
      and r = "\<lparr>Old = [''blocks'', ''1bQx''], New = [''blocks'', ''Qx'']\<rparr>"
      and cswap = exSwapper and m = "[[''blocks'', ''Qx''] \<mapsto> [''blocks'', ''1aQx'']]"
      and ch = "[]"]
    unswappedMap_last_wins [where cfg = defaultConfig and l = "newLocals exSwapper"
      and st = "mkStore [([''blocks'', ''1aQx''], ''v'')] noFaults"
      and r = "\<lparr>Old = [''blocks'', ''1bQx''], New = [''blocks'', ''Qx'']\<rparr>"
      and cswap = exSwapper and m = "[[''blocks'', ''Qx''] \<mapsto> [''blocks'', ''1aQx'']]"
      and ch = "[]"]
  by (simp add: run_defs defaultConfig_def word_le_nat_alt split: prod.splits)

subsection \<open>A failed Put on the collapse path of the reversal (C10)\<close>

text \<open>
  C10. In one iteration of the reversal loop, when \<^verbatim>\<open>swap\<close> returns \<^verbatim>\<open>ErrNotFound\<close>, the
  map has an entry for the record's new key, the Get of the key that entry names succeeds
  and the Put of the value under the record's old key fails: the error is counted, and
  the iteration goes on as if the Put had succeeded: the reverted counter is incremented,
  the record is sent on \<^verbatim>\<open>SwapCh\<close>, and the map entry of the new key is set to the old
  key. The store holds what it held before the failed Put, so the old key was not
  restored.
\<close>

theorem collapse_put_failure_is_counted_as_reverted:
  assumes "swapWorker_swap cfg (sw l) st (New r) (Old r) = (Some ErrNotFound, swker, stA)"
    and "m (New r) = Some swappedTo"
    and "swapWorker_sync swker stA = (serr, stB)"
    and "Get stB swappedTo = (Inr v, stC)"
    and "Put stC (Old r) v = (Some e, stD)"
  shows "unswapWorker_body cfg cswap r (l, m, ch, st) =
           (l\<lparr>sw := swker\<lparr>swapped := swapped swker + 1\<rparr>, errored := errored l + 1\<rparr>,
            m(New r \<mapsto> Old r),
            send cswap ch \<lparr>Old = New r, New = Old r\<rparr>,
            stD) \<and>
         kv stD = kv stC"
  using assms
  by (auto simp: unswapWorker_body_def Put_def split: option.splits)

theorem collapse_put_failure_is_counted_as_reverted_witness:
  "unswapWorker_body defaultConfig exSwapper
     \<lparr>Old = [''blocks'', ''1bQx''], New = [''blocks'', ''Qx'']\<rparr>
     (newLocals exSwapper, [[''blocks'', ''Qx''] \<mapsto> [''blocks'', ''1aQx'']], [],
      mkStore [([''blocks'', ''1aQx''], ''v'')] (failOn (OpPut [''blocks'', ''1bQx''] ''v'') ioErr)) =
   (\<lparr>sw = \<lparr>swapped = 1, curSyncSize = 0, syncPrefix = [''blocks''], toDelete = []\<rparr>,
      errored = 1\<rparr>,
    [[''blocks'', ''Qx''] \<mapsto> [''blocks'', ''1bQx'']],
    [\<lparr>Old = [''blocks'', ''Qx''], New = [''blocks'', ''1bQx'']\<rparr>],
    \<lparr>kv = [([''blocks'', ''1aQx''], ''v'')],
      faults = failOn (OpPut [''blocks'', ''1bQx''] ''v'') ioErr,
      trace = [(OpGet [''blocks'', ''Qx''], Some ErrNotFound), (OpSync [''blocks''], None),
               (OpGet [''blocks'', ''1aQx''], None),
               (OpPut [''blocks'', ''1bQx''] ''v'', Some ioErr)]\<rparr>) \<and>
   fst (CidSwapper_Revert \<lparr>SyncSize = 1, NWorkers = 4\<rparr> exSwapper
     [\<lparr>Old = [''blocks'', ''1aQx''], New = [''blocks'', ''Qx'']\<rparr>,
      \<lparr>Old = [''blocks'', ''1bQx''], New = [''blocks'', ''Qx'']\<rparr>]
     ([], mkStore [([''blocks'', ''Qx''], ''v'')] (failOn (OpPut [''blocks'', ''1bQx''] ''v'') ioErr))) =
     (2, Some migrationError) \<and>
   kv (snd (snd (CidSwapper_Revert \<lparr>SyncSize = 1, NWorkers = 4\<rparr> exSwapper
     [\<lparr>Old = [''blocks'', ''1aQx''], New = [''blocks'', ''Qx'']\<rparr>,
      \<lparr>Old = [''blocks'', ''1bQx''], New = [''blocks'', ''Qx'']\<rparr>]
     ([], mkStore [([''blocks'', ''Qx''], ''v'')] (failOn (OpPut [''blocks'', ''1bQx''] ''v'') ioErr))))) =
     [([''blocks'', ''1aQx''], ''v'')]"
proof -
  let ?f = "failOn (OpPut [''blocks'', ''1bQx''] ''v'') ioErr"
  let ?st = "mkStore [([''blocks'', ''1aQx''], ''v'')] ?f"
  let ?st1 = "\<lparr>kv = [([''blocks'', ''1aQx''], ''v'')], faults = ?f,
      trace = [(OpGet [''blocks'', ''Qx''], Some ErrNotFound)]\<rparr>"
  let ?st2 = "\<lparr>kv = [([''blocks'', ''1aQx''], ''v'')], faults = ?f,
      trace = [(OpGet [''blocks'', ''Qx''], Some ErrNotFound), (OpSync [''blocks''], None)]\<rparr>"
  let ?st3 = "\<lparr>kv = [([''blocks'', ''1aQx''], ''v'')], faults = ?f,
      trace = [(OpGet [''blocks'', ''Qx''], Some ErrNotFound), (OpSync [''blocks''], None),
               (OpGet [''blocks'', ''1aQx''], None)]\<rparr>"
  let ?st4 = "\<lparr>kv = [([''blocks'', ''1aQx''], ''v'')], faults = ?f,
      trace = [(OpGet [''blocks'', ''Qx''], Some ErrNotFound), (OpSync [''blocks''], None),
               (OpGet [''blocks'', ''1aQx''], None),
               (OpPut [''blocks'', ''1bQx''] ''v'', Some ioErr)]\<rparr>"
  let ?r = "\<lparr>Old = [''blocks'', ''1bQx''], New = [''blocks'', ''Qx'']\<rparr>"
  have 1: "swapWorker_swap defaultConfig (sw (newLocals exSwapper)) ?st (New ?r) (Old ?r) =
      (Some ErrNotFound, sw (newLocals exSwapper), ?st1)"
    by (simp add: run_defs)
  have 2: "[[''blocks'', ''Qx''] \<mapsto> [''blocks'', ''1aQx'']] (New ?r) = Some [''blocks'', ''1aQx'']"
    by simp
  have 3: "swapWorker_sync (sw (newLocals exSwapper)) ?st1 = (None, ?st2)"
    by (simp add: run_defs)
  have 4: "Get ?st2 [''blocks'', ''1aQx''] = (Inr ''v'', ?st3)"
    by (simp add: run_defs)
  have 5: "Put ?st3 (Old ?r) ''v'' = (Some ioErr, ?st4)"
    by (simp add: run_defs)
  show ?thesis
    using collapse_put_failure_is_counted_as_reverted [where cfg = defaultConfig
        and l = "newLocals exSwapper" and st = ?st and r = ?r
        and swker = "sw (newLocals exSwapper)" and stA = ?st1
        and m = "[[''blocks'', ''Qx''] \<mapsto> [''blocks'', ''1aQx'']]"
        and swappedTo = "[''blocks'', ''1aQx'']" and serr = None and stB = ?st2
        and v = "''v''" and stC = ?st3 and e = ioErr and stD = ?st4
        and cswap = exSwapper and ch = "[]", OF 1 2 3 4 5]
    by (simp add: run_defs CidSwapper_Revert_def CidSwapper_unswapWorker_def
        unswapWorker_body_def finalSync_def CidSwapper_runWorkers_def)
qed

subsection \<open>The error \<^verbatim>\<open>Migration.Revert\<close> returns after a scan error (C9)\<close>

text \<open>
  C9. When the repository is locked, checked and opened without error, the scan of the
  backup file stops at a line that does not parse (so \<^verbatim>\<open>scannerErr\<close> is that parse
  error) and the reversal of the records scanned before it returns no error, then
  \<^verbatim>\<open>Migration.Revert\<close> returns the outer \<^verbatim>\<open>err\<close>, which is nil at that point, and not the
  scan error; it writes no version file and does not rename the backup file.
\<close>

theorem Revert_returns_stale_err_on_scan_error:
  assumes "lockErr ev = None" and "checkVersionErr ev = None"
    and "openErr ev = None" and "osOpenErr ev = None"
    and "scanBackup cd (backupLines ev) = (unswapCh, Some scanErr)"
    and "CidSwapper_Revert cfg \<lparr>Prefix = [], SwapCh = False\<rparr> unswapCh ([], st) =
           ((n, None), ch, st')"
  shows "Migration_Revert cd cfg ev st = (None, [], st') \<and>
         fst (Migration_Revert cd cfg ev st) \<noteq> Some scanErr"
  using assms by (simp add: Migration_Revert_def)

theorem Revert_returns_stale_err_on_scan_error_witness:
  "Migration_Revert exCodec defaultConfig
     \<lparr>lockErr = None, checkVersionErr = None, openErr = None, osOpenErr = None,
      backupLines = [[''blocks'', ''1aQx''], [''blocks'', ''zz'']],
      writeVersionErr = None, closeErr = None, renameErr = None\<rparr>
     (mkStore [([''blocks'', ''Qx''], ''v'')] noFaults) =
   (None, [],
    \<lparr>kv = [([''blocks'', ''1aQx''], ''v'')], faults = noFaults,
      trace = [(OpGet [''blocks'', ''Qx''], None), (OpPut [''blocks'', ''1aQx''] ''v'', None),
               (OpSync [], None), (OpDelete [''blocks'', ''Qx''], None), (OpSync [], None)]\<rparr>)"
proof -
  let ?ev = "\<lparr>lockErr = None, checkVersionErr = None, openErr = None, osOpenErr = None,
      backupLines = [[''blocks'', ''1aQx''], [''blocks'', ''zz'']],
      writeVersionErr = None, closeErr = None, renameErr = None\<rparr>"
  let ?st = "mkStore [([''blocks'', ''Qx''], ''v'')] noFaults"
  let ?st' = "\<lparr>kv = [([''blocks'', ''1aQx''], ''v'')], faults = noFaults,
      trace = [(OpGet [''blocks'', ''Qx''], None), (OpPut [''blocks'', ''1aQx''] ''v'', None),
               (OpSync [], None), (OpDelete [''blocks'', ''Qx''], None), (OpSync [], None)]\<rparr>"
  have scan: "scanBackup exCodec (backupLines ?ev) =
      ([\<lparr>Old = [''blocks'', ''1aQx''], New = [''blocks'', ''Qx'']\<rparr>],
       Some (ErrOther ''invalid cid''))"
    by (simp add: exCodec_v1a exCodec_bad exCodec_mh Parent_def Child_def)
  have rev: "CidSwapper_Revert defaultConfig \<lparr>Prefix = [], SwapCh = False\<rparr>
      [\<lparr>Old = [''blocks'', ''1aQx''], New = [''blocks'', ''Qx'']\<rparr>] ([], ?st) =
      ((1, None), [], ?st')"
    by (simp add: run_defs CidSwapper_Revert_def CidSwapper_unswapWorker_def
        unswapWorker_body_def finalSync_def CidSwapper_runWorkers_def defaultConfig_def
        word_le_nat_alt)
  show ?thesis
    using Revert_returns_stale_err_on_scan_error [where ev = ?ev and cd = exCodec
        and cfg = defaultConfig and st = ?st and st' = ?st' and n = 1 and ch = "[]"
        and scanErr = "ErrOther ''invalid cid''"
        and unswapCh = "[\<lparr>Old = [''blocks'', ''1aQx''], New = [''blocks'', ''Qx'']\<rparr>]",
        OF _ _ _ _ scan rev]
    by simp
qed

subsection \<open>The worker pool\<close>

lemma workerStep_cases:
  assumes "workerStep cd cfg cswap dryRun i (rs, ws, ch, st) = s'"
  obtains
    (idle) "s' = (rs, ws, ch, st)" and "i < length ws \<longrightarrow> snd (ws ! i) \<noteq> None"
  | (body) l res rs' l' ch' st' where "i < length ws" and "ws ! i = (l, None)"
      and "rs = res # rs'"
      and "swapWorker_body cd cfg cswap dryRun res (l, ch, st) = (l', ch', st')"
      and "s' = (rs', ws[i := (l', None)], ch', st')"
  | (fin) l out st' where "i < length ws" and "ws ! i = (l, None)" and "rs = []"
      and "swapWorker_end dryRun l st = (out, st')"
      and "s' = ([], ws[i := (l, Some out)], ch, st')"
  using assms
  by (auto simp: workerStep_def split: if_splits prod.splits option.splits list.splits)

lemma workerSteps_induct:
  assumes "P s" and "\<And>i s. P s \<Longrightarrow> P (workerStep cd cfg cswap dryRun i s)"
  shows "P (workerSteps cd cfg cswap dryRun sched s)"
  using assms(1)
  by (induction sched arbitrary: s) (simp_all add: assms(2))

lemma workerSteps_append:
  "workerSteps cd cfg cswap dryRun (xs @ ys) s =
   workerSteps cd cfg cswap dryRun ys (workerSteps cd cfg cswap dryRun xs s)"
  by (induction xs arbitrary: s) simp_all

lemma workerStep_length:
  "workerStep cd cfg cswap dryRun i (rs, ws, ch, st) = (rs', ws', ch', st') \<Longrightarrow>
   length ws' = length ws \<and> length rs' \<le> length rs"
  by (erule workerStep_cases) auto

lemma workerSteps_length:
  "workerSteps cd cfg cswap dryRun sched (rs, ws, ch, st) = (rs', ws', ch', st') \<Longrightarrow>
   length ws' = length ws \<and> length rs' \<le> length rs"
proof (induction sched arbitrary: rs ws ch st)
  case Nil
  then show ?case by simp
next
  case (Cons i sched)
  obtain rs1 ws1 ch1 st1 where s1: "workerStep cd cfg cswap dryRun i (rs, ws, ch, st) = (rs1, ws1, ch1, st1)"
    by (metis prod_cases4)
  from Cons.prems s1 have "workerSteps cd cfg cswap dryRun sched (rs1, ws1, ch1, st1) = (rs', ws', ch', st')"
    by simp
  from Cons.IH [OF this] workerStep_length [OF s1] show ?case by simp
qed

text \<open>While a result is on the channel no worker has returned.\<close>

lemma workerStep_running:
  assumes "workerStep cd cfg cswap dryRun i (rs, ws, ch, st) = (rs', ws', ch', st')"
    and "rs \<noteq> [] \<longrightarrow> (\<forall>w \<in> set ws. snd w = None)"
  shows "rs' \<noteq> [] \<longrightarrow> (\<forall>w \<in> set ws'. snd w = None)"
  using assms(1)
proof (cases rule: workerStep_cases)
  case idle
  with assms(2) show ?thesis by simp
next
  case (body l res rs1 l' ch1 st1)
  with assms(2) have "\<forall>w \<in> set ws. snd w = None" by simp
  with body show ?thesis
    by (auto dest!: set_update_subset_insert [THEN subsetD])
next
  case (fin l out st1)
  then show ?thesis by simp
qed

lemma workerSteps_running:
  assumes "workerSteps cd cfg cswap dryRun sched (rs, ws, ch, st) = (rs', ws', ch', st')"
    and "rs \<noteq> [] \<longrightarrow> (\<forall>w \<in> set ws. snd w = None)"
  shows "rs' \<noteq> [] \<longrightarrow> (\<forall>w \<in> set ws'. snd w = None)"
proof -
  have "case workerSteps cd cfg cswap dryRun sched (rs, ws, ch, st) of
          (rs', ws', ch', st') \<Rightarrow> rs' \<noteq> [] \<longrightarrow> (\<forall>w \<in> set ws'. snd w = None)"
  proof (rule workerSteps_induct)
    show "case (rs, ws, ch, st) of
            (rs', ws', ch', st') \<Rightarrow> rs' \<noteq> [] \<longrightarrow> (\<forall>w \<in> set ws'. snd w = None)"
      using assms(2) by simp
  next
    fix i and s :: "Result list \<times> pool \<times> Swap list \<times> datastore"
    assume a: "case s of (rs', ws', ch', st') \<Rightarrow> rs' \<noteq> [] \<longrightarrow> (\<forall>w \<in> set ws'. snd w = None)"
    obtain a1 a2 a3 a4 where s: "s = (a1, a2, a3, a4)" by (metis prod_cases4)
    obtain b1 b2 b3 b4 where t: "workerStep cd cfg cswap dryRun i (a1, a2, a3, a4) = (b1, b2, b3, b4)"
      by (metis prod_cases4)
    from workerStep_running [OF t] a s t
    show "case workerStep cd cfg cswap dryRun i s of
            (rs', ws', ch', st') \<Rightarrow> rs' \<noteq> [] \<longrightarrow> (\<forall>w \<in> set ws'. snd w = None)"
      by simp
  qed
  with assms(1) show ?thesis by simp
qed

text \<open>Worker 0 drains the channel in as many moves as there are results.\<close>

lemma workerSteps_drain:
  assumes "ws \<noteq> []" and "rs \<noteq> [] \<longrightarrow> (\<forall>w \<in> set ws. snd w = None)"
    and "length rs \<le> n"
  shows "fst (workerSteps cd cfg cswap dryRun (replicate n 0) (rs, ws, ch, st)) = []"
  using assms
proof (induction n arbitrary: rs ws ch st)
  case 0
  then show ?case by simp
next
  case (Suc n)
  obtain rs1 ws1 ch1 st1 where
    s1: "workerStep cd cfg cswap dryRun 0 (rs, ws, ch, st) = (rs1, ws1, ch1, st1)"
    by (metis prod_cases4)
  have len: "length ws1 = length ws" using workerStep_length [OF s1] by simp
  have run: "rs1 \<noteq> [] \<longrightarrow> (\<forall>w \<in> set ws1. snd w = None)"
    using workerStep_running [OF s1 Suc.prems(2)] .
  have "length rs1 \<le> n"
    using s1
  proof (cases rule: workerStep_cases)
    case idle
    from Suc.prems(1) have "0 < length ws" by simp
    with idle(2) have "snd (ws ! 0) \<noteq> None" by simp
    moreover from \<open>0 < length ws\<close> have "ws ! 0 \<in> set ws" by simp
    ultimately have "rs = []" using Suc.prems(2) by (cases "rs = []") auto
    with idle show ?thesis by simp
  next
    case (body l res rs' l' ch' st')
    with Suc.prems(3) show ?thesis by simp
  next
    case (fin l out st')
    then show ?thesis by simp
  qed
  moreover from len Suc.prems(1) have "ws1 \<noteq> []" by auto
  ultimately have "fst (workerSteps cd cfg cswap dryRun (replicate n 0) (rs1, ws1, ch1, st1)) = []"
    using run by (intro Suc.IH) auto
  with s1 show ?case by simp
qed

text \<open>Once the channel is drained, a move of a worker makes it return, and a worker
  that has returned stays as it is.\<close>

lemma workerSteps_finish:
  assumes "workerSteps cd cfg cswap dryRun sched ([], ws, ch, st) = (rs', ws', ch', st')"
  shows "rs' = [] \<and> length ws' = length ws \<and>
         (\<forall>i \<in> set sched. i < length ws \<longrightarrow> snd (ws' ! i) \<noteq> None) \<and>
         (\<forall>i < length ws. snd (ws ! i) \<noteq> None \<longrightarrow> snd (ws' ! i) \<noteq> None)"
  using assms
proof (induction sched arbitrary: ws ch st)
  case Nil
  then show ?case by simp
next
  case (Cons j sched)
  obtain rs1 ws1 ch1 st1 where
    s1: "workerStep cd cfg cswap dryRun j ([], ws, ch, st) = (rs1, ws1, ch1, st1)"
    by (metis prod_cases4)
  have step: "rs1 = [] \<and> length ws1 = length ws \<and>
      (j < length ws \<longrightarrow> snd (ws1 ! j) \<noteq> None) \<and>
      (\<forall>i < length ws. snd (ws ! i) \<noteq> None \<longrightarrow> snd (ws1 ! i) \<noteq> None)"
    using s1 by (cases rule: workerStep_cases) (auto simp: nth_list_update)
  from Cons.prems s1 step
  have "workerSteps cd cfg cswap dryRun sched ([], ws1, ch1, st1) = (rs', ws', ch', st')"
    by simp
  from Cons.IH [OF this] step show ?case by auto
qed

text \<open>At the end of a run every worker has returned.\<close>

lemma runPool_all_returned:
  assumes "workerSteps cd cfg cswap dryRun (sched @ completion cfg results)
             (results, replicate (NWorkers cfg) (newLocals cswap, None), ch, st) =
           (rs', ws', ch', st')"
  shows "length ws' = NWorkers cfg \<and> (\<forall>w \<in> set ws'. snd w \<noteq> None)"
proof (cases "NWorkers cfg = 0")
  case True
  with assms workerSteps_length [OF assms] show ?thesis by simp
next
  case False
  let ?ws0 = "replicate (NWorkers cfg) (newLocals cswap, None :: (64 word \<times> 64 word) option)"
  obtain rs1 ws1 ch1 st1 where
    s1: "workerSteps cd cfg cswap dryRun sched (results, ?ws0, ch, st) = (rs1, ws1, ch1, st1)"
    by (metis prod_cases4)
  obtain rs2 ws2 ch2 st2 where
    s2: "workerSteps cd cfg cswap dryRun (replicate (length results) 0) (rs1, ws1, ch1, st1) =
         (rs2, ws2, ch2, st2)"
    by (metis prod_cases4)
  have s3: "workerSteps cd cfg cswap dryRun [0..<NWorkers cfg] (rs2, ws2, ch2, st2) =
         (rs', ws', ch', st')"
    using assms s1 s2 by (simp add: workerSteps_append completion_def)
  have l1: "length ws1 = NWorkers cfg" "length rs1 \<le> length results"
    using workerSteps_length [OF s1] by simp_all
  have r1: "rs1 \<noteq> [] \<longrightarrow> (\<forall>w \<in> set ws1. snd w = None)"
    by (rule workerSteps_running [OF s1]) simp
  have "ws1 \<noteq> []" using l1 False by auto
  from workerSteps_drain [OF this r1 l1(2), of cd cfg cswap dryRun ch1 st1] s2
  have "rs2 = []" by simp
  have l2: "length ws2 = NWorkers cfg" using workerSteps_length [OF s2] l1 by simp
  from workerSteps_finish [OF s3 [unfolded \<open>rs2 = []\<close>]] l2
  have len: "length ws' = NWorkers cfg" and all: "\<forall>i < length ws'. snd (ws' ! i) \<noteq> None"
    by auto
  have "snd w \<noteq> None" if "w \<in> set ws'" for w
  proof -
    from that obtain i where "i < length ws'" and "ws' ! i = w"
      by (auto simp: in_set_conv_nth)
    with all show ?thesis by blast
  qed
  with len show ?thesis by blast
qed

subsection \<open>Counters of the workers\<close>

lemma sum_list_map_update:
  fixes f :: "'a \<Rightarrow> 'b::comm_monoid_add"
  shows "i < length xs \<Longrightarrow>
         sum_list (map f (xs[i := x])) + f (xs ! i) = sum_list (map f xs) + f x"
proof (induction xs arbitrary: i)
  case Nil
  then show ?case by simp
next
  case (Cons y ys)
  show ?case
  proof (cases i)
    case 0
    then show ?thesis by (simp add: ac_simps)
  next
    case (Suc j)
    with Cons.prems have "j < length ys" by simp
    from Cons.IH [OF this] Suc show ?thesis
      by (simp add: add.assoc)
  qed
qed

lemma unat_inc_le: "unat (x + 1 :: 64 word) \<le> unat x + 1"
  by (metis unat_1 unat_word_ariths(1) mod_less_eq_dividend)

lemma unat_sum_list:
  fixes xs :: "64 word list"
  shows "sum_list (map unat xs) < 2 ^ 64 \<Longrightarrow> unat (sum_list xs) = sum_list (map unat xs)"
proof (induction xs)
  case Nil
  then show ?case by simp
next
  case (Cons x xs)
  then have "unat (sum_list xs) = sum_list (map unat xs)" by simp
  moreover from Cons.prems have "unat x + sum_list (map unat xs) < 2 ^ LENGTH(64)" by simp
  ultimately show ?case by (simp add: unat_add_lem [THEN iffD1])
qed

lemma swapWorker_body_errored:
  assumes "swapWorker_body cd cfg cswap dryRun res (l, ch, st) = (l', ch', st')"
  shows "unat (errored l') \<le> unat (errored l) + 1"
proof -
  from assms have "errored l' = errored l \<or> errored l' = errored l + 1"
    by (auto simp: swapWorker_body_def Let_def
        split: option.splits sum.splits if_splits prod.splits)
  then show ?thesis using unat_inc_le [of "errored l"] by auto
qed

lemma finalSync_errored:
  assumes "finalSync l st = (out, st')"
  shows "unat (snd out) \<le> unat (errored l) + 2" and "fst out = swapped (sw l)"
proof -
  from assms have "snd out = errored l \<or> snd out = errored l + 1 \<or> snd out = errored l + 1 + 1"
    by (auto simp: finalSync_def Let_def split: prod.splits if_splits)
  then show "unat (snd out) \<le> unat (errored l) + 2"
    using unat_inc_le [of "errored l"] unat_inc_le [of "errored l + 1"] by auto
  from assms show "fst out = swapped (sw l)"
    by (auto simp: finalSync_def Let_def swapWorker_syncAndDelete_def
        split: prod.splits if_splits option.splits)
qed

lemma swapWorker_end_errored:
  assumes "swapWorker_end dryRun l st = (out, st')"
  shows "unat (snd out) \<le> unat (errored l) + 2" and "fst out = swapped (sw l)"
  using assms finalSync_errored [of l st out st']
  by (auto simp: swapWorker_end_def split: if_splits)

lemma workerStep_budget:
  assumes "workerStep cd cfg cswap dryRun i (rs, ws, ch, st) = (rs', ws', ch', st')"
  shows "sum_list (map errorBudget ws') + length rs' \<le> sum_list (map errorBudget ws) + length rs"
  using assms
proof (cases rule: workerStep_cases)
  case idle
  then show ?thesis by simp
next
  case (body l res rs1 l1 ch1 st1)
  from swapWorker_body_errored [OF body(4)]
  have "errorBudget (l1, None) \<le> errorBudget (ws ! i) + 1"
    by (simp add: errorBudget_def body(2))
  with sum_list_map_update [OF body(1), of errorBudget "(l1, None)"] body
  show ?thesis by simp
next
  case (fin l out st1)
  from swapWorker_end_errored(1) [OF fin(4)]
  have "errorBudget (l, Some out) \<le> errorBudget (ws ! i)"
    by (simp add: errorBudget_def fin(2))
  with sum_list_map_update [OF fin(1), of errorBudget "(l, Some out)"] fin
  show ?thesis by simp
qed

lemma workerSteps_budget:
  assumes "workerSteps cd cfg cswap dryRun sched (rs, ws, ch, st) = (rs', ws', ch', st')"
  shows "sum_list (map errorBudget ws') + length rs' \<le> sum_list (map errorBudget ws) + length rs"
  using assms
proof (induction sched arbitrary: rs ws ch st)
  case Nil
  then show ?case by simp
next
  case (Cons i sched)
  obtain rs1 ws1 ch1 st1 where
    s1: "workerStep cd cfg cswap dryRun i (rs, ws, ch, st) = (rs1, ws1, ch1, st1)"
    by (metis prod_cases4)
  with Cons.prems have "workerSteps cd cfg cswap dryRun sched (rs1, ws1, ch1, st1) = (rs', ws', ch', st')"
    by simp
  from Cons.IH [OF this] workerStep_budget [OF s1] show ?case by linarith
qed

lemma returned_budget:
  "\<forall>w \<in> set ws. snd w \<noteq> None \<Longrightarrow>
   sum_list (map unat (map snd (returned ws))) = sum_list (map errorBudget ws)"
  by (induction ws) (auto simp: returned_def errorBudget_def)

lemma runPool_errors_bounded:
  assumes "runPool cd cfg cswap dryRun sched results (ch, st) = (outs, ch', st')"
  shows "length outs = NWorkers cfg"
    and "sum_list (map unat (map snd outs)) \<le> length results + 2 * NWorkers cfg"
proof -
  let ?ws0 = "replicate (NWorkers cfg) (newLocals cswap, None :: (64 word \<times> 64 word) option)"
  obtain rs1 ws1 ch1 st1 where
    s: "workerSteps cd cfg cswap dryRun (sched @ completion cfg results) (results, ?ws0, ch, st) =
        (rs1, ws1, ch1, st1)"
    by (metis prod_cases4)
  with assms have outs: "outs = returned ws1" by (simp add: runPool_def)
  from runPool_all_returned [OF s] have len: "length ws1 = NWorkers cfg"
    and fin: "\<forall>w \<in> set ws1. snd w \<noteq> None" by simp_all
  from len outs show "length outs = NWorkers cfg" by (simp add: returned_def)
  have "sum_list (map errorBudget ?ws0) = 2 * NWorkers cfg"
    by (simp add: sum_list_replicate errorBudget_def newLocals_def)
  with workerSteps_budget [OF s] returned_budget [OF fin] outs
  show "sum_list (map unat (map snd outs)) \<le> length results + 2 * NWorkers cfg"
    by simp
qed

lemma runWorkers_error_iff:
  assumes "sum_list (map unat (map snd outs)) < 2 ^ 64"
  shows "snd (CidSwapper_runWorkers outs) \<noteq> None \<longleftrightarrow> (\<exists>out \<in> set outs. snd out \<noteq> 0)"
proof -
  have "unat (sum_list (map snd outs)) = sum_list (map unat (map snd outs))"
    using assms by (rule unat_sum_list)
  moreover have "0 < sum_list (map unat (map snd outs)) \<longleftrightarrow> (\<exists>out \<in> set outs. snd out \<noteq> 0)"
    by (induction outs) (auto simp: unat_gt_0)
  ultimately have "0 < sum_list (map snd outs) \<longleftrightarrow> (\<exists>out \<in> set outs. snd out \<noteq> 0)"
    by (metis unat_gt_0 word_neq_0_conv)
  then show ?thesis by (simp add: CidSwapper_runWorkers_def Let_def)
qed

subsection \<open>The swap counters count the successful puts\<close>

lemma successfulPuts_emit:
  "successfulPuts (emit st op r) =
   successfulPuts st + (case op of OpPut k v \<Rightarrow> (if r = None then 1 else 0) | _ \<Rightarrow> 0)"
  by (simp add: successfulPuts_def emit_def split: dsop.splits)

lemma successfulPuts_kv [simp]: "successfulPuts (st\<lparr>kv := al\<rparr>) = successfulPuts st"
  by (simp add: successfulPuts_def)

lemma successfulPuts_Get: "Get st k = (r, st') \<Longrightarrow> successfulPuts st' = successfulPuts st"
  by (auto simp: Get_def successfulPuts_emit split: option.splits)

lemma successfulPuts_Put:
  "Put st k v = (r, st') \<Longrightarrow>
   successfulPuts st' = successfulPuts st + (if r = None then 1 else 0)"
  by (auto simp: Put_def successfulPuts_emit split: option.splits)

lemma successfulPuts_Delete: "Delete st k = (r, st') \<Longrightarrow> successfulPuts st' = successfulPuts st"
  by (auto simp: Delete_def successfulPuts_emit split: option.splits)

lemma successfulPuts_Sync: "Sync st p = (r, st') \<Longrightarrow> successfulPuts st' = successfulPuts st"
  by (auto simp: Sync_def successfulPuts_emit split: option.splits)

lemma successfulPuts_Query: "Query st p = (r, st') \<Longrightarrow> successfulPuts st' = successfulPuts st"
  by (auto simp: Query_def successfulPuts_emit split: option.splits)

lemma successfulPuts_deleteKeys:
  "deleteKeys ks st = (r, st') \<Longrightarrow> successfulPuts st' = successfulPuts st"
proof (induction ks arbitrary: st)
  case Nil
  then show ?case by simp
next
  case (Cons k ks)
  obtain r1 st1 where d: "Delete st k = (r1, st1)" by (metis prod.exhaust)
  with Cons show ?case
    by (cases r1) (auto dest: successfulPuts_Delete)
qed

lemma successfulPuts_syncAndDelete:
  assumes "swapWorker_syncAndDelete w st = (r, w', st')"
  shows "successfulPuts st' = successfulPuts st \<and> swapped w' = swapped w"
proof -
  obtain r1 st1 where s: "Sync st (syncPrefix w) = (r1, st1)" by (metis prod.exhaust)
  obtain r2 st2 where d: "deleteKeys (toDelete w) st1 = (r2, st2)" by (metis prod.exhaust)
  note p = successfulPuts_Sync [OF s] successfulPuts_deleteKeys [OF d]
  from assms s d p show ?thesis
    by (cases r1; cases r2) (auto simp: swapWorker_syncAndDelete_def swapWorker_sync_def)
qed

lemma successfulPuts_swap:
  assumes "swapWorker_swap cfg w st old new = (r, w', st')"
  shows "swapped w' + of_nat (successfulPuts st) = swapped w + of_nat (successfulPuts st')"
proof -
  obtain g st1 where g: "Get st old = (g, st1)" by (metis prod.exhaust)
  note p1 = successfulPuts_Get [OF g]
  show ?thesis
  proof (cases g)
    case (Inl e)
    with assms g p1 show ?thesis by (simp add: swapWorker_swap_def)
  next
    case (Inr v)
    obtain pe st2 where p: "Put st1 new v = (pe, st2)" by (metis prod.exhaust)
    note p2 = successfulPuts_Put [OF p]
    show ?thesis
    proof (cases pe)
      case (Some e)
      with assms g Inr p p1 p2 show ?thesis by (auto simp: swapWorker_swap_def)
    next
      case None
      let ?w1 = "w\<lparr>toDelete := toDelete w @ [old], swapped := swapped w + 1,
                    curSyncSize := curSyncSize w + of_nat (length v)\<rparr>"
      show ?thesis
      proof (cases "SyncSize cfg \<le> curSyncSize ?w1")
        case True
        with assms g Inr p None
        have "swapWorker_syncAndDelete (?w1\<lparr>curSyncSize := 0\<rparr>) st2 = (r, w', st')"
          by (simp add: swapWorker_swap_def Let_def)
        from successfulPuts_syncAndDelete [OF this] p1 p2 None show ?thesis by simp
      next
        case False
        with assms g Inr p None have "w' = ?w1" and "st' = st2"
          by (simp_all add: swapWorker_swap_def Let_def)
        with p1 p2 None show ?thesis by simp
      qed
    qed
  qed
qed

lemma swapWorker_body_cases:
  assumes "swapWorker_body cd cfg cswap dryRun res (l, ch, st) = (l', ch', st')"
  obtains
    (failed) e where "Error res = Some e" and "l' = l\<lparr>errored := errored l + 1\<rparr>"
      and "ch' = ch" and "st' = st"
  | (skip) "Error res = None" and "l' = l" and "ch' = ch" and "st' = st"
      and "case dsKeyToCid cd (NewKey (BaseNamespace (Key res))) of
             Inl err \<Rightarrow> True | Inr c \<Rightarrow> Version c = 0"
  | (dry) c where "Error res = None" and "dryRun"
      and "dsKeyToCid cd (NewKey (BaseNamespace (Key res))) = Inr c" and "Version c \<noteq> 0"
      and "l' = l\<lparr>sw := (sw l)\<lparr>swapped := swapped (sw l) + 1\<rparr>\<rparr>"
      and "ch' = send cswap ch \<lparr>Old = Key res,
             New = Child (Parent (Key res)) (MultihashToDsKey cd (Hash c))\<rparr>"
      and "st' = st"
  | (swap) c err w' where "Error res = None" and "\<not> dryRun"
      and "dsKeyToCid cd (NewKey (BaseNamespace (Key res))) = Inr c" and "Version c \<noteq> 0"
      and "swapWorker_swap cfg (sw l) st (Key res)
             (Child (Parent (Key res)) (MultihashToDsKey cd (Hash c))) = (err, w', st')"
      and "err = None \<longrightarrow> l' = l\<lparr>sw := w'\<rparr> \<and>
             ch' = send cswap ch \<lparr>Old = Key res,
               New = Child (Parent (Key res)) (MultihashToDsKey cd (Hash c))\<rparr>"
      and "err \<noteq> None \<longrightarrow> l' = l\<lparr>sw := w', errored := errored l + 1\<rparr> \<and> ch' = ch"
proof (cases "Error res")
  case (Some e)
  with assms show ?thesis by (intro failed [of e]) (auto simp: swapWorker_body_def)
next
  case None
  show ?thesis
  proof (cases "dsKeyToCid cd (NewKey (BaseNamespace (Key res)))")
    case (Inl e)
    with assms None show ?thesis by (intro skip) (auto simp: swapWorker_body_def)
  next
    case (Inr c)
    show ?thesis
    proof (cases "Version c = 0")
      case True
      with assms None Inr show ?thesis by (intro skip) (auto simp: swapWorker_body_def)
    next
      case False
      show ?thesis
      proof (cases dryRun)
        case True
        with assms None Inr False show ?thesis
          by (intro dry [of c]) (auto simp: swapWorker_body_def Let_def)
      next
        case dr: False
        obtain err w1 st1 where
          s: "swapWorker_swap cfg (sw l) st (Key res)
                (Child (Parent (Key res)) (MultihashToDsKey cd (Hash c))) = (err, w1, st1)"
          by (metis prod_cases3)
        with assms None Inr False dr show ?thesis
          by (intro swap [of c err w1]) (auto simp: swapWorker_body_def Let_def split: option.splits)
      qed
    qed
  qed
qed

lemma successfulPuts_body:
  assumes "swapWorker_body cd cfg cswap False res (l, ch, st) = (l', ch', st')"
  shows "swapped (sw l') + of_nat (successfulPuts st) =
         swapped (sw l) + of_nat (successfulPuts st')"
  using assms
proof (cases rule: swapWorker_body_cases)
  case (swap c err w')
  from successfulPuts_swap [OF swap(5)] swap(6,7) show ?thesis
    by (cases err) auto
qed auto

lemma successfulPuts_finalSync:
  assumes "finalSync l st = (out, st')"
  shows "successfulPuts st' = successfulPuts st"
proof -
  obtain r1 w1 st1 where a: "swapWorker_syncAndDelete (sw l) st = (r1, w1, st1)"
    by (metis prod_cases3)
  obtain r2 st2 where b: "Sync st1 (syncPrefix w1) = (r2, st2)" by (metis prod.exhaust)
  from assms a b have "st' = st2"
    by (auto simp: finalSync_def Let_def swapWorker_sync_def)
  with successfulPuts_syncAndDelete [OF a] successfulPuts_Sync [OF b] show ?thesis by simp
qed

lemma successfulPuts_step:
  assumes "workerStep cd cfg cswap False i (rs, ws, ch, st) = (rs', ws', ch', st')"
  shows "sum_list (map swapCount ws') + of_nat (successfulPuts st) =
         sum_list (map swapCount ws) + of_nat (successfulPuts st')"
  using assms
proof (cases rule: workerStep_cases)
  case idle
  then show ?thesis by simp
next
  case (body l res rs1 l1 ch1 st1)
  from successfulPuts_body [OF body(4)]
  have "swapCount (l1, None) + of_nat (successfulPuts st) =
        swapCount (ws ! i) + of_nat (successfulPuts st1)"
    by (simp add: swapCount_def body(2))
  moreover from sum_list_map_update [OF body(1), of swapCount "(l1, None)"] body(5)
  have "sum_list (map swapCount ws') + swapCount (ws ! i) =
        sum_list (map swapCount ws) + swapCount (l1, None)"
    by simp
  ultimately have "(sum_list (map swapCount ws') + of_nat (successfulPuts st)) + swapCount (ws ! i) =
        (sum_list (map swapCount ws) + of_nat (successfulPuts st1)) + swapCount (ws ! i)"
    by (simp add: algebra_simps)
  with body(5) show ?thesis by simp
next
  case (fin l out st1)
  from fin(4) have "successfulPuts st1 = successfulPuts st"
    by (auto simp: swapWorker_end_def dest: successfulPuts_finalSync)
  moreover from swapWorker_end_errored(2) [OF fin(4)]
  have "swapCount (l, Some out) = swapCount (ws ! i)"
    by (simp add: swapCount_def fin(2))
  ultimately show ?thesis
    using sum_list_map_update [OF fin(1), of swapCount "(l, Some out)"] fin(5) by simp
qed

lemma word_balance:
  fixes a b p q :: "64 word"
  shows "a + p = b + q \<longleftrightarrow> a - q = b - p"
proof
  assume h: "a + p = b + q"
  have "a - q = (a + p) - p - q" by simp
  also have "\<dots> = (b + q) - p - q" by (simp only: h)
  also have "\<dots> = b - p" by simp
  finally show "a - q = b - p" .
next
  assume h: "a - q = b - p"
  have "a + p = (a - q) + q + p" by simp
  also have "\<dots> = (b - p) + q + p" by (simp only: h)
  also have "\<dots> = b + q" by simp
  finally show "a + p = b + q" .
qed

lemma successfulPuts_steps:
  assumes "workerSteps cd cfg cswap False sched (rs, ws, ch, st) = (rs', ws', ch', st')"
  shows "sum_list (map swapCount ws') + of_nat (successfulPuts st) =
         sum_list (map swapCount ws) + of_nat (successfulPuts st')"
  using assms
proof (induction sched arbitrary: rs ws ch st)
  case Nil
  then show ?case by simp
next
  case (Cons i sched)
  obtain rs1 ws1 ch1 st1 where
    s1: "workerStep cd cfg cswap False i (rs, ws, ch, st) = (rs1, ws1, ch1, st1)"
    by (metis prod_cases4)
  with Cons.prems have "workerSteps cd cfg cswap False sched (rs1, ws1, ch1, st1) = (rs', ws', ch', st')"
    by simp
  from Cons.IH [OF this] successfulPuts_step [OF s1]
  have "sum_list (map swapCount ws') - of_nat (successfulPuts st') =
        sum_list (map swapCount ws1) - of_nat (successfulPuts st1)"
    and "sum_list (map swapCount ws1) - of_nat (successfulPuts st1) =
        sum_list (map swapCount ws) - of_nat (successfulPuts st)"
    by (simp_all only: word_balance)
  then show ?case by (simp only: word_balance)
qed

lemma returned_swapCount:
  "\<forall>w \<in> set ws. snd w \<noteq> None \<Longrightarrow>
   sum_list (map fst (returned ws)) = sum_list (map swapCount ws)"
  by (induction ws) (auto simp: returned_def swapCount_def)

lemma runPool_counts_puts:
  assumes "runPool cd cfg cswap False sched results (ch, st) = (outs, ch', st')"
  shows "sum_list (map fst outs) + of_nat (successfulPuts st) = of_nat (successfulPuts st')"
proof -
  let ?ws0 = "replicate (NWorkers cfg) (newLocals cswap, None :: (64 word \<times> 64 word) option)"
  obtain rs1 ws1 ch1 st1 where
    s: "workerSteps cd cfg cswap False (sched @ completion cfg results) (results, ?ws0, ch, st) =
        (rs1, ws1, ch1, st1)"
    by (metis prod_cases4)
  with assms have outs: "outs = returned ws1" and st: "st' = st1" by (simp_all add: runPool_def)
  from runPool_all_returned [OF s] have fin: "\<forall>w \<in> set ws1. snd w \<noteq> None" by simp
  have "sum_list (map swapCount ?ws0) = 0"
    by (simp add: sum_list_replicate swapCount_def newLocals_def)
  with successfulPuts_steps [OF s] returned_swapCount [OF fin] outs st
  show ?thesis by simp
qed

subsection \<open>Every store operation appends one event\<close>

lemma Get_trace:
  "Get st k = (r, st') \<Longrightarrow>
   \<exists>e. trace st' = trace st @ [(OpGet k, e)] \<and> (e = None \<longleftrightarrow> (\<exists>v. r = Inr v))"
  by (auto simp: Get_def split: option.splits)

lemma Put_trace:
  "Put st k v = (r, st') \<Longrightarrow> trace st' = trace st @ [(OpPut k v, r)]"
  by (auto simp: Put_def split: option.splits)

lemma Delete_trace:
  "Delete st k = (r, st') \<Longrightarrow> trace st' = trace st @ [(OpDelete k, r)]"
  by (auto simp: Delete_def split: option.splits)

lemma Sync_trace:
  "Sync st p = (r, st') \<Longrightarrow> trace st' = trace st @ [(OpSync p, r)]"
  by (auto simp: Sync_def split: option.splits)

subsection \<open>Sync before delete (C3)\<close>

lemma putDone_append: "putDone R tr old \<Longrightarrow> putDone R (tr @ ev) old"
  unfolding putDone_def by (metis append.assoc append_Cons)

lemma putDone_snoc2: "R old new \<Longrightarrow> putDone R (tr @ [(OpGet old, None), (OpPut new v, None)]) old"
  unfolding putDone_def by blast

lemma flushed_sync: "putDone R tr old \<Longrightarrow> flushed p R (tr @ [(OpSync p, None)]) old"
  unfolding putDone_def flushed_def
  by (metis append.assoc append_Cons empty_iff list.set(1))

lemma flushed_delete:
  assumes "flushed p R tr old"
  shows "flushed p R (tr @ [(OpDelete k, r)]) old"
proof -
  from assms obtain a b c new v where
    tr: "tr = a @ (OpGet old, None) # (OpPut new v, None) # b @ (OpSync p, None) # c"
    and R: "R old new" and c: "\<forall>e \<in> set c. isDelete (fst e)"
    unfolding flushed_def by blast
  have "tr @ [(OpDelete k, r)] =
      a @ (OpGet old, None) # (OpPut new v, None) # b @ (OpSync p, None) # (c @ [(OpDelete k, r)])"
    using tr by simp
  moreover have "\<forall>e \<in> set (c @ [(OpDelete k, r)]). isDelete (fst e)"
    using c by (simp add: isDelete_def)
  ultimately show ?thesis using R unfolding flushed_def by blast
qed

lemma syncBeforeDelete_snoc:
  assumes "syncBeforeDelete p R tr"
    and "\<forall>old. fst e = OpDelete old \<longrightarrow> flushed p R tr old"
  shows "syncBeforeDelete p R (tr @ [e])"
  unfolding syncBeforeDelete_def
proof (intro allI impI)
  fix a old r b
  assume eq: "tr @ [e] = a @ (OpDelete old, r) # b"
  show "flushed p R a old"
  proof (cases b rule: rev_cases)
    case Nil
    with eq have "a = tr" and "e = (OpDelete old, r)" by simp_all
    with assms(2) show ?thesis by simp
  next
    case (snoc b' x)
    with eq have "tr = a @ (OpDelete old, r) # b'" by simp
    with assms(1) show ?thesis unfolding syncBeforeDelete_def by blast
  qed
qed

lemma syncBeforeDelete_other:
  "syncBeforeDelete p R tr \<Longrightarrow> \<not> isDelete op \<Longrightarrow> syncBeforeDelete p R (tr @ [(op, r)])"
  by (rule syncBeforeDelete_snoc) (auto simp: isDelete_def)

lemma deleteKeys_order:
  assumes "deleteKeys ks st = (r, st')" and "trace st = tr0 @ tr"
    and "syncBeforeDelete p R tr" and "\<forall>k \<in> set ks. flushed p R tr k"
  shows "\<exists>tr'. trace st' = tr0 @ tr' \<and> syncBeforeDelete p R tr' \<and>
           (\<forall>k. putDone R tr k \<longrightarrow> putDone R tr' k)"
  using assms
proof (induction ks arbitrary: st tr)
  case Nil
  then show ?case by auto
next
  case (Cons k ks)
  obtain r1 st1 where d: "Delete st k = (r1, st1)" by (metis prod.exhaust)
  let ?tr1 = "tr @ [(OpDelete k, r1)]"
  from Delete_trace [OF d] Cons.prems(2) have t1: "trace st1 = tr0 @ ?tr1" by simp
  have s1: "syncBeforeDelete p R ?tr1"
    using Cons.prems(3,4) by (intro syncBeforeDelete_snoc) auto
  have p1: "\<forall>k. putDone R tr k \<longrightarrow> putDone R ?tr1 k"
    by (simp add: putDone_append)
  show ?case
  proof (cases r1)
    case (Some e)
    with Cons.prems(1) d have "st' = st1" by simp
    with t1 s1 p1 show ?thesis by blast
  next
    case None
    with Cons.prems(1) d have "deleteKeys ks st1 = (r, st')" by simp
    moreover have "\<forall>k \<in> set ks. flushed p R ?tr1 k"
      using Cons.prems(4) by (simp add: flushed_delete)
    ultimately obtain tr' where "trace st' = tr0 @ tr'" and "syncBeforeDelete p R tr'"
      and "\<forall>k. putDone R ?tr1 k \<longrightarrow> putDone R tr' k"
      using Cons.IH [OF _ t1 s1] by blast
    with p1 show ?thesis by blast
  qed
qed

lemma workerOrder_other:
  "workerOrder p R tr w \<Longrightarrow> \<not> isDelete op \<Longrightarrow> workerOrder p R (tr @ [(op, r)]) w"
  by (simp add: workerOrder_def syncBeforeDelete_other putDone_append)

lemma sync_order:
  assumes "swapWorker_sync w st = (r, st')" and "trace st = tr0 @ tr"
    and "workerOrder p R tr w"
  shows "trace st' = tr0 @ tr @ [(OpSync p, r)] \<and> workerOrder p R (tr @ [(OpSync p, r)]) w"
proof -
  from assms(3) have "syncPrefix w = p" by (simp add: workerOrder_def)
  with assms(1) have "Sync st p = (r, st')" by (simp add: swapWorker_sync_def)
  from Sync_trace [OF this] assms(2,3) show ?thesis
    by (simp add: workerOrder_other isDelete_def)
qed

lemma syncAndDelete_order:
  assumes "swapWorker_syncAndDelete w st = (r, w', st')" and "trace st = tr0 @ tr"
    and "workerOrder p R tr w"
  shows "\<exists>tr'. trace st' = tr0 @ tr' \<and> workerOrder p R tr' w'"
proof -
  obtain r1 st1 where s: "swapWorker_sync w st = (r1, st1)" by (metis prod.exhaust)
  let ?tr1 = "tr @ [(OpSync p, r1)]"
  from sync_order [OF s assms(2,3)]
  have t1: "trace st1 = tr0 @ ?tr1" and o1: "workerOrder p R ?tr1 w" by simp_all
  show ?thesis
  proof (cases r1)
    case (Some e)
    with assms(1) s have "w' = w" and "st' = st1"
      by (simp_all add: swapWorker_syncAndDelete_def)
    with t1 o1 show ?thesis by blast
  next
    case None
    obtain r2 st2 where d: "deleteKeys (toDelete w) st1 = (r2, st2)" by (metis prod.exhaust)
    have fl: "\<forall>k \<in> set (toDelete w). flushed p R ?tr1 k"
      using assms(3) None by (simp add: workerOrder_def flushed_sync)
    from o1 have "syncBeforeDelete p R ?tr1" by (simp add: workerOrder_def)
    from deleteKeys_order [OF d t1 this fl]
    obtain tr' where t2: "trace st2 = tr0 @ tr'" and s2: "syncBeforeDelete p R tr'"
      and p2: "\<forall>k. putDone R ?tr1 k \<longrightarrow> putDone R tr' k" by blast
    from o1 p2 have pend: "\<forall>k \<in> set (toDelete w). putDone R tr' k"
      by (simp add: workerOrder_def)
    from assms(3) have pfx: "syncPrefix w = p" by (simp add: workerOrder_def)
    from assms(1) s None d have "st' = st2" and "w' = w \<or> w' = w\<lparr>toDelete := []\<rparr>"
      by (auto simp: swapWorker_syncAndDelete_def split: option.splits)
    with t2 s2 pend pfx show ?thesis
      by (auto simp: workerOrder_def)
  qed
qed

lemma swap_order:
  assumes "swapWorker_swap cfg w st old new = (r, w', st')" and "trace st = tr0 @ tr"
    and "workerOrder p R tr w" and "R old new"
  shows "\<exists>tr'. trace st' = tr0 @ tr' \<and> workerOrder p R tr' w'"
proof -
  obtain g st1 where g: "Get st old = (g, st1)" by (metis prod.exhaust)
  from Get_trace [OF g] obtain e where
    e: "trace st1 = trace st @ [(OpGet old, e)]" and ev: "e = None \<longleftrightarrow> (\<exists>v. g = Inr v)"
    by blast
  let ?tr1 = "tr @ [(OpGet old, e)]"
  from e assms(2) have t1: "trace st1 = tr0 @ ?tr1" by simp
  have o1: "workerOrder p R ?tr1 w"
    using assms(3) by (simp add: workerOrder_other isDelete_def)
  show ?thesis
  proof (cases g)
    case (Inl err)
    with assms(1) g have "w' = w" and "st' = st1" by (simp_all add: swapWorker_swap_def)
    with t1 o1 show ?thesis by blast
  next
    case (Inr v)
    with ev have "e = None" by simp
    obtain pe st2 where pu: "Put st1 new v = (pe, st2)" by (metis prod.exhaust)
    let ?tr2 = "?tr1 @ [(OpPut new v, pe)]"
    from Put_trace [OF pu] t1 have t2: "trace st2 = tr0 @ ?tr2" by simp
    have o2: "workerOrder p R ?tr2 w"
      using workerOrder_other [OF o1, of "OpPut new v" pe] by (simp add: isDelete_def)
    show ?thesis
    proof (cases pe)
      case (Some err)
      with assms(1) g Inr pu have "w' = w" and "st' = st2"
        by (simp_all add: swapWorker_swap_def)
      with t2 o2 show ?thesis by blast
    next
      case None
      let ?w1 = "w\<lparr>toDelete := toDelete w @ [old], swapped := swapped w + 1,
                    curSyncSize := curSyncSize w + of_nat (length v)\<rparr>"
      have "putDone R ?tr2 old"
        using putDone_snoc2 [where R = R and old = old and new = new and tr = tr and v = v]
          assms(4) \<open>e = None\<close> None by simp
      with o2 have o3: "workerOrder p R ?tr2 ?w1"
        by (simp add: workerOrder_def)
      show ?thesis
      proof (cases "SyncSize cfg \<le> curSyncSize ?w1")
        case True
        with assms(1) g Inr pu None
        have "swapWorker_syncAndDelete (?w1\<lparr>curSyncSize := 0\<rparr>) st2 = (r, w', st')"
          by (simp add: swapWorker_swap_def Let_def)
        moreover from o3 have "workerOrder p R ?tr2 (?w1\<lparr>curSyncSize := 0\<rparr>)"
          by (simp add: workerOrder_def)
        ultimately show ?thesis using syncAndDelete_order [OF _ t2] by blast
      next
        case False
        with assms(1) g Inr pu None have "w' = ?w1" and "st' = st2"
          by (simp_all add: swapWorker_swap_def Let_def)
        with t2 o3 show ?thesis by blast
      qed
    qed
  qed
qed

lemma finalSync_order:
  assumes "finalSync l st = (out, st')" and "trace st = tr0 @ tr"
    and "workerOrder p R tr (sw l)"
  shows "\<exists>tr'. trace st' = tr0 @ tr' \<and> syncBeforeDelete p R tr'"
proof -
  obtain r1 w1 st1 where a: "swapWorker_syncAndDelete (sw l) st = (r1, w1, st1)"
    by (metis prod_cases3)
  from syncAndDelete_order [OF a assms(2,3)] obtain tr1 where
    t1: "trace st1 = tr0 @ tr1" and o1: "workerOrder p R tr1 w1" by blast
  obtain r2 st2 where b: "swapWorker_sync w1 st1 = (r2, st2)" by (metis prod.exhaust)
  from assms(1) a b have "st' = st2" by (simp add: finalSync_def Let_def)
  with sync_order [OF b t1 o1] show ?thesis
    by (auto simp: workerOrder_def)
qed

lemma swapWorker_body_order:
  assumes "swapWorker_body cd cfg cswap dryRun res (l, ch, st) = (l', ch', st')"
    and "trace st = tr0 @ tr" and "workerOrder p (classifiesTo cd) tr (sw l)"
  shows "\<exists>tr'. trace st' = tr0 @ tr' \<and> workerOrder p (classifiesTo cd) tr' (sw l')"
  using assms(1)
proof (cases rule: swapWorker_body_cases)
  case (failed e)
  with assms(2,3) show ?thesis by auto
next
  case skip
  with assms(2,3) show ?thesis by auto
next
  case (dry c)
  with assms(2,3) show ?thesis by (auto simp: workerOrder_def)
next
  case (swap c err w')
  have "classifiesTo cd (Key res) (Child (Parent (Key res)) (MultihashToDsKey cd (Hash c)))"
    using swap(3,4) by (auto simp: classifiesTo_def)
  from swap_order [OF swap(5) assms(2,3) this] swap(6,7) show ?thesis
    by (cases err) auto
qed

lemma swapWorker_loop_order:
  assumes "swapWorker_loop cd cfg cswap dryRun rs (l, ch, st) = (l', ch', st')"
    and "trace st = tr0 @ tr" and "workerOrder p (classifiesTo cd) tr (sw l)"
  shows "\<exists>tr'. trace st' = tr0 @ tr' \<and> workerOrder p (classifiesTo cd) tr' (sw l')"
  using assms
proof (induction rs arbitrary: l ch st tr)
  case Nil
  then show ?case by auto
next
  case (Cons res rs)
  obtain l1 ch1 st1 where
    b: "swapWorker_body cd cfg cswap dryRun res (l, ch, st) = (l1, ch1, st1)"
    by (metis prod_cases3)
  from swapWorker_body_order [OF b Cons.prems(2,3)] obtain tr1 where
    "trace st1 = tr0 @ tr1" and "workerOrder p (classifiesTo cd) tr1 (sw l1)" by blast
  moreover from Cons.prems(1) b
  have "swapWorker_loop cd cfg cswap dryRun rs (l1, ch1, st1) = (l', ch', st')" by simp
  ultimately show ?case using Cons.IH by blast
qed

lemma unswapWorker_body_order:
  assumes "unswapWorker_body cfg cswap rec (l, m, ch, st) = (l', m', ch', st')"
    and "trace st = tr0 @ tr" and "workerOrder p R tr (sw l)"
    and "R (New rec) (Old rec)"
  shows "\<exists>tr'. trace st' = tr0 @ tr' \<and> workerOrder p R tr' (sw l')"
proof -
  obtain err w1 st1 where
    s: "swapWorker_swap cfg (sw l) st (New rec) (Old rec) = (err, w1, st1)"
    by (metis prod_cases3)
  from swap_order [OF s assms(2,3,4)] obtain tr1 where
    t1: "trace st1 = tr0 @ tr1" and o1: "workerOrder p R tr1 w1" by blast
  show ?thesis
  proof (cases "err = Some ErrNotFound")
    case False
    with assms(1) s have "st' = st1" and "sw l' = w1"
      by (auto simp: unswapWorker_body_def split: if_splits)
    with t1 o1 show ?thesis by auto
  next
    case nf: True
    show ?thesis
    proof (cases "m (New rec)")
      case None
      with assms(1) s nf have "st' = st1" and "sw l' = w1"
        by (auto simp: unswapWorker_body_def)
      with t1 o1 show ?thesis by auto
    next
      case (Some swappedTo)
      obtain r2 st2 where sy: "swapWorker_sync w1 st1 = (r2, st2)" by (metis prod.exhaust)
      from sync_order [OF sy t1 o1]
      have t2: "trace st2 = tr0 @ tr1 @ [(OpSync p, r2)]"
        and o2: "workerOrder p R (tr1 @ [(OpSync p, r2)]) w1" by simp_all
      obtain g st3 where g: "Get st2 swappedTo = (g, st3)" by (metis prod.exhaust)
      from Get_trace [OF g] obtain e where
        e: "trace st3 = trace st2 @ [(OpGet swappedTo, e)]" by blast
      let ?tr3 = "tr1 @ [(OpSync p, r2)] @ [(OpGet swappedTo, e)]"
      from e t2 have t3: "trace st3 = tr0 @ ?tr3" by simp
      have o3: "workerOrder p R ?tr3 w1"
        using workerOrder_other [OF o2, of "OpGet swappedTo" e] by (simp add: isDelete_def)
      show ?thesis
      proof (cases g)
        case (Inl ge)
        with assms(1) s nf Some sy g have "st' = st3" and "sw l' = w1"
          by (auto simp: unswapWorker_body_def)
        with t3 o3 show ?thesis by auto
      next
        case (Inr v)
        obtain pe st4 where pu: "Put st3 (Old rec) v = (pe, st4)" by (metis prod.exhaust)
        let ?tr4 = "?tr3 @ [(OpPut (Old rec) v, pe)]"
        from Put_trace [OF pu] t3 have t4: "trace st4 = tr0 @ ?tr4" by simp
        have "workerOrder p R ?tr4 w1"
          using workerOrder_other [OF o3, of "OpPut (Old rec) v" pe] by (simp add: isDelete_def)
        then have o4: "workerOrder p R ?tr4 (w1\<lparr>swapped := swapped w1 + 1\<rparr>)"
          by (simp add: workerOrder_def)
        from assms(1) s nf Some sy g Inr pu
        have "st' = st4" and "sw l' = w1\<lparr>swapped := swapped w1 + 1\<rparr>"
          by (auto simp: unswapWorker_body_def)
        with t4 o4 show ?thesis by auto
      qed
    qed
  qed
qed

lemma unswapWorker_loop_order:
  assumes "unswapWorker_loop cfg cswap recs (l, m, ch, st) = (l', m', ch', st')"
    and "trace st = tr0 @ tr" and "workerOrder p R tr (sw l)"
    and "\<forall>rec \<in> set recs. R (New rec) (Old rec)"
  shows "\<exists>tr'. trace st' = tr0 @ tr' \<and> workerOrder p R tr' (sw l')"
  using assms
proof (induction recs arbitrary: l m ch st tr)
  case Nil
  then show ?case by auto
next
  case (Cons rec recs)
  obtain l1 m1 ch1 st1 where
    b: "unswapWorker_body cfg cswap rec (l, m, ch, st) = (l1, m1, ch1, st1)"
    by (metis prod_cases4)
  from Cons.prems(4) have "R (New rec) (Old rec)" by simp
  from unswapWorker_body_order [OF b Cons.prems(2,3) this] obtain tr1 where
    "trace st1 = tr0 @ tr1" and "workerOrder p R tr1 (sw l1)" by blast
  moreover from Cons.prems(1) b
  have "unswapWorker_loop cfg cswap recs (l1, m1, ch1, st1) = (l', m', ch', st')" by simp
  moreover from Cons.prems(4) have "\<forall>rec \<in> set recs. R (New rec) (Old rec)" by simp
  ultimately show ?case using Cons.IH by blast
qed

lemma workerOrder_init: "workerOrder (Prefix cswap) R [] (sw (newLocals cswap))"
  by (simp add: workerOrder_def syncBeforeDelete_def newLocals_def)

text \<open>
  C3. Whatever operations of the store fail, the events a worker appends to the trace
  (a forward worker on any results, dry run or not, and the reversal worker on any
  records) are in order: whenever a delete of a key is issued, the events before it have
  a successful Get of that key immediately followed by a successful Put under the key
  it is swapped for, then a successful sync of the worker's prefix, and between that sync
  and the delete nothing but deletes. And at every point of the loop every key of the
  pending-deletion list has had its successful Put (the loop is run on any list of
  results, so on every prefix of the results of a run).
\<close>

theorem sync_precedes_delete:
  "(\<exists>tr. trace (snd (snd (CidSwapper_swapWorker cd cfg cswap dryRun rs (ch, st)))) =
           trace st @ tr \<and>
         syncBeforeDelete (Prefix cswap) (classifiesTo cd) tr) \<and>
   (\<exists>tr. trace (snd (snd (CidSwapper_unswapWorker cfg cswap recs (ch, st)))) =
           trace st @ tr \<and>
         syncBeforeDelete (Prefix cswap) (revertsTo recs) tr) \<and>
   (\<exists>tr. trace (snd (snd (swapWorker_loop cd cfg cswap dryRun rs (newLocals cswap, ch, st)))) =
           trace st @ tr \<and>
         (\<forall>k \<in> set (toDelete (sw (fst (swapWorker_loop cd cfg cswap dryRun rs
                                          (newLocals cswap, ch, st))))).
            putDone (classifiesTo cd) tr k)) \<and>
   (\<exists>tr. trace (snd (snd (snd (unswapWorker_loop cfg cswap recs
                                (newLocals cswap, Map.empty, ch, st))))) =
           trace st @ tr \<and>
         (\<forall>k \<in> set (toDelete (sw (fst (unswapWorker_loop cfg cswap recs
                                          (newLocals cswap, Map.empty, ch, st))))).
            putDone (revertsTo recs) tr k))"
proof -
  obtain l1 ch1 st1 where
    f: "swapWorker_loop cd cfg cswap dryRun rs (newLocals cswap, ch, st) = (l1, ch1, st1)"
    by (metis prod_cases3)
  from swapWorker_loop_order [OF f, of "trace st" "[]" "Prefix cswap"] workerOrder_init
  obtain tr1 where t1: "trace st1 = trace st @ tr1"
    and o1: "workerOrder (Prefix cswap) (classifiesTo cd) tr1 (sw l1)" by auto
  obtain out st2 where e: "swapWorker_end dryRun l1 st1 = (out, st2)" by (metis prod.exhaust)
  have "\<exists>tr. trace st2 = trace st @ tr \<and> syncBeforeDelete (Prefix cswap) (classifiesTo cd) tr"
  proof (cases dryRun)
    case True
    with e have "st2 = st1" by (simp add: swapWorker_end_def)
    with t1 o1 show ?thesis by (auto simp: workerOrder_def)
  next
    case False
    with e have "finalSync l1 st1 = (out, st2)" by (simp add: swapWorker_end_def)
    from finalSync_order [OF this t1 o1] show ?thesis .
  qed
  with f e have A: "\<exists>tr. trace (snd (snd (CidSwapper_swapWorker cd cfg cswap dryRun rs (ch, st)))) =
           trace st @ tr \<and> syncBeforeDelete (Prefix cswap) (classifiesTo cd) tr"
    by (simp add: CidSwapper_swapWorker_def)
  from f t1 o1 have C: "\<exists>tr. trace (snd (snd (swapWorker_loop cd cfg cswap dryRun rs
               (newLocals cswap, ch, st)))) = trace st @ tr \<and>
         (\<forall>k \<in> set (toDelete (sw (fst (swapWorker_loop cd cfg cswap dryRun rs
               (newLocals cswap, ch, st))))). putDone (classifiesTo cd) tr k)"
    by (auto simp: workerOrder_def)
  obtain l3 m3 ch3 st3 where
    u: "unswapWorker_loop cfg cswap recs (newLocals cswap, Map.empty, ch, st) = (l3, m3, ch3, st3)"
    by (metis prod_cases4)
  have eta: "\<lparr>Old = Old rec, New = New rec\<rparr> = rec" for rec :: Swap
    by (cases rec) simp
  have "\<forall>rec \<in> set recs. revertsTo recs (New rec) (Old rec)"
    by (simp add: revertsTo_def eta)
  from unswapWorker_loop_order [OF u, of "trace st" "[]" "Prefix cswap" "revertsTo recs"]
    workerOrder_init this
  obtain tr3 where t3: "trace st3 = trace st @ tr3"
    and o3: "workerOrder (Prefix cswap) (revertsTo recs) tr3 (sw l3)" by auto
  obtain out4 st4 where e4: "finalSync l3 st3 = (out4, st4)" by (metis prod.exhaust)
  from finalSync_order [OF e4 t3 o3] u e4
  have B: "\<exists>tr. trace (snd (snd (CidSwapper_unswapWorker cfg cswap recs (ch, st)))) =
           trace st @ tr \<and> syncBeforeDelete (Prefix cswap) (revertsTo recs) tr"
    by (simp add: CidSwapper_unswapWorker_def)
  from u t3 o3 have D: "\<exists>tr. trace (snd (snd (snd (unswapWorker_loop cfg cswap recs
               (newLocals cswap, Map.empty, ch, st))))) = trace st @ tr \<and>
         (\<forall>k \<in> set (toDelete (sw (fst (unswapWorker_loop cfg cswap recs
               (newLocals cswap, Map.empty, ch, st))))). putDone (revertsTo recs) tr k)"
    by (auto simp: workerOrder_def)
  from A B C D show ?thesis by blast
qed

theorem sync_precedes_delete_witness:
  "syncBeforeDelete [''blocks''] (classifiesTo exCodec)
     [(OpGet [''blocks'', ''1aQx''], None), (OpPut [''blocks'', ''Qx''] ''v'', None),
      (OpSync [''blocks''], None), (OpDelete [''blocks'', ''1aQx''], None),
      (OpGet [''blocks'', ''1bQx''], None), (OpPut [''blocks'', ''Qx''] ''v'', None),
      (OpSync [''blocks''], None), (OpDelete [''blocks'', ''1bQx''], None),
      (OpSync [''blocks''], None), (OpSync [''blocks''], None)] \<and>
   putDone (classifiesTo exCodec)
     [(OpGet [''blocks'', ''1aQx''], None), (OpPut [''blocks'', ''Qx''] ''v'', None)]
     [''blocks'', ''1aQx'']"
proof -
  let ?rs = "[\<lparr>Key = [''blocks'', ''1aQx''], Error = None\<rparr>,
              \<lparr>Key = [''blocks'', ''1bQx''], Error = None\<rparr>]"
  let ?st = "mkStore [([''blocks'', ''1aQx''], ''v''), ([''blocks'', ''1bQx''], ''v'')] noFaults"
  have run: "trace (snd (snd (CidSwapper_swapWorker exCodec \<lparr>SyncSize = 1, NWorkers = 4\<rparr>
      exSwapper False ?rs ([], ?st)))) =
     [(OpGet [''blocks'', ''1aQx''], None), (OpPut [''blocks'', ''Qx''] ''v'', None),
      (OpSync [''blocks''], None), (OpDelete [''blocks'', ''1aQx''], None),
      (OpGet [''blocks'', ''1bQx''], None), (OpPut [''blocks'', ''Qx''] ''v'', None),
      (OpSync [''blocks''], None), (OpDelete [''blocks'', ''1bQx''], None),
      (OpSync [''blocks''], None), (OpSync [''blocks''], None)]"
    by (simp add: run_defs CidSwapper_swapWorker_def swapWorker_body_def swapWorker_end_def
        finalSync_def exCodec_v1a exCodec_v1b exCodec_mh Parent_def Child_def)
  have loop: "swapWorker_body exCodec defaultConfig exSwapper False
      \<lparr>Key = [''blocks'', ''1aQx''], Error = None\<rparr> (newLocals exSwapper, [], ?st) =
     (\<lparr>sw = \<lparr>swapped = 1, curSyncSize = 1, syncPrefix = [''blocks''],
              toDelete = [[''blocks'', ''1aQx'']]\<rparr>, errored = 0\<rparr>,
      [\<lparr>Old = [''blocks'', ''1aQx''], New = [''blocks'', ''Qx'']\<rparr>],
      \<lparr>kv = [([''blocks'', ''1aQx''], ''v''), ([''blocks'', ''1bQx''], ''v''),
              ([''blocks'', ''Qx''], ''v'')],
        faults = noFaults,
        trace = [(OpGet [''blocks'', ''1aQx''], None), (OpPut [''blocks'', ''Qx''] ''v'', None)]\<rparr>)"
    by (simp add: run_defs swapWorker_body_def defaultConfig_def word_le_nat_alt
        exCodec_v1a exCodec_mh Parent_def Child_def)
  have pfx: "Prefix exSwapper = [''blocks'']" and tr0: "trace ?st = []"
    by (simp_all add: exSwapper_def mkStore_def)
  from sync_precedes_delete [where cd = exCodec and cfg = "\<lparr>SyncSize = 1, NWorkers = 4\<rparr>"
      and cswap = exSwapper and dryRun = False and rs = ?rs and ch = "[]" and st = ?st]
  have 1: "syncBeforeDelete [''blocks''] (classifiesTo exCodec)
     [(OpGet [''blocks'', ''1aQx''], None), (OpPut [''blocks'', ''Qx''] ''v'', None),
      (OpSync [''blocks''], None), (OpDelete [''blocks'', ''1aQx''], None),
      (OpGet [''blocks'', ''1bQx''], None), (OpPut [''blocks'', ''Qx''] ''v'', None),
      (OpSync [''blocks''], None), (OpDelete [''blocks'', ''1bQx''], None),
      (OpSync [''blocks''], None), (OpSync [''blocks''], None)]"
    by (simp only: run pfx tr0 append_Nil) blast
  from sync_precedes_delete [where cd = exCodec and cfg = defaultConfig
      and cswap = exSwapper and dryRun = False
      and rs = "[\<lparr>Key = [''blocks'', ''1aQx''], Error = None\<rparr>]" and ch = "[]" and st = ?st]
  have 2: "putDone (classifiesTo exCodec)
     [(OpGet [''blocks'', ''1aQx''], None), (OpPut [''blocks'', ''Qx''] ''v'', None)]
     [''blocks'', ''1aQx'']"
    by (simp add: loop tr0)
  from 1 2 show ?thesis ..
qed

subsection \<open>The effect of a swap on a store whose operations do not fail\<close>

lemma map_of_fold_delete: "map_of (fold AList.delete ks al) = map_of al |` (- set ks)"
proof (induction ks arbitrary: al)
  case Nil
  then show ?case by simp
next
  case (Cons k ks)
  show ?case
    by (rule ext) (simp add: Cons.IH delete_conv' restrict_map_def)
qed

lemma swap_ok_effect:
  assumes "faults st = noFaults" and "map_of (kv st) old = Some v"
  shows "\<exists>w' st'. swapWorker_swap cfg w st old new = (None, w', st') \<and>
           faults st' = noFaults \<and> swapped w' = swapped w + 1 \<and>
           syncPrefix w' = syncPrefix w \<and>
           ((toDelete w' = toDelete w @ [old] \<and>
             map_of (kv st') = (map_of (kv st))(new \<mapsto> v)) \<or>
            (toDelete w' = [] \<and>
             map_of (kv st') = ((map_of (kv st))(new \<mapsto> v)) |` (- set (toDelete w @ [old]))))"
proof (cases "SyncSize cfg \<le> curSyncSize w + of_nat (length v)")
  case False
  with assms show ?thesis
    by (simp add: swapWorker_swap_def Get_ok Put_ok Let_def update_conv')
next
  case True
  have m: "map_of (fold AList.delete (toDelete w @ [old]) (AList.update new v (kv st))) =
      ((map_of (kv st))(new \<mapsto> v)) |` (- set (toDelete w @ [old]))"
    by (simp only: map_of_fold_delete update_conv')
  from True assms m show ?thesis
    by (simp add: swapWorker_swap_def Get_ok Put_ok syncAndDelete_ok Let_def)
qed

lemma swap_notfound_effect:
  assumes "faults st = noFaults" and "map_of (kv st) old = None"
  shows "\<exists>st'. swapWorker_swap cfg w st old new = (Some ErrNotFound, w, st') \<and>
           faults st' = noFaults \<and> kv st' = kv st"
  using assms by (simp add: swapWorker_swap_def Get_def)

lemma finalSync_ok_effect:
  assumes "faults st = noFaults"
  shows "\<exists>st'. finalSync l st = ((swapped (sw l), errored l), st') \<and>
           faults st' = noFaults \<and>
           map_of (kv st') = map_of (kv st) |` (- set (toDelete (sw l)))"
  using assms
  by (simp add: finalSync_def syncAndDelete_ok swapWorker_sync_def Sync_ok Let_def
      map_of_fold_delete)

subsection \<open>The store during a forward run\<close>

lemma fwdStore_skip:
  assumes "fwdStore t M0 D P M" and "t k = None"
  shows "fwdStore t M0 (insert k D) P M"
  using assms unfolding fwdStore_def by auto

lemma fwdStore_put:
  assumes inv: "fwdStore t M0 D P M" and wp: "wellPlaced t M0 K"
    and k: "k \<in> K" "k \<notin> D" and D: "D \<subseteq> K"
    and c: "t k = Some c" and v: "M0 k = Some v"
  shows "fwdStore t M0 (insert k D) (insert k P) (M(c \<mapsto> v))"
proof -
  from wp k(1) c have c0: "M0 c = None" unfolding wellPlaced_def by blast
  from wp have dom: "K \<subseteq> dom M0" unfolding wellPlaced_def by blast
  from c0 dom have cK: "c \<notin> K" by auto
  have same: "M0 k' = Some v" if "k' \<in> K" "t k' = Some c" for k'
    using wp k(1) c v that unfolding wellPlaced_def by (metis option.distinct(1))
  show ?thesis
    unfolding fwdStore_def
  proof (intro conjI ballI allI impI)
    show "insert k P \<subseteq> {x \<in> insert k D. t x \<noteq> None}"
      using inv c unfolding fwdStore_def by auto
  next
    fix k' c' assume a: "k' \<in> insert k D" "t k' = Some c'"
    show "(M(c \<mapsto> v)) c' = M0 k'"
    proof (cases "c' = c")
      case True
      with a k(1) D have "M0 k' = Some v" by (intro same) auto
      with True show ?thesis by simp
    next
      case False
      with a c have "k' \<in> D" by auto
      with inv a(2) False show ?thesis unfolding fwdStore_def by auto
    qed
  next
    fix k' assume a: "k' \<in> insert k D" "t k' \<noteq> None \<and> k' \<notin> insert k P"
    then have "k' \<in> D" and "k' \<notin> P" by auto
    moreover from \<open>k' \<in> D\<close> D cK have "k' \<noteq> c" by auto
    ultimately show "(M(c \<mapsto> v)) k' = None"
      using inv a(2) unfolding fwdStore_def by auto
  next
    fix x assume a: "(x \<notin> insert k D \<or> t x = None) \<and> (\<forall>k' \<in> insert k D. t k' \<noteq> Some x)"
    with c have "x \<noteq> c" by auto
    moreover from a have "(x \<notin> D \<or> t x = None) \<and> (\<forall>k' \<in> D. t k' \<noteq> Some x)" by auto
    ultimately show "(M(c \<mapsto> v)) x = M0 x"
      using inv unfolding fwdStore_def by auto
  qed
qed

lemma fwdStore_flush:
  assumes inv: "fwdStore t M0 D P M" and wp: "wellPlaced t M0 K" and D: "D \<subseteq> K"
    and Q: "Q \<subseteq> P" and P': "P - Q \<subseteq> P'" "P' \<subseteq> P"
  shows "fwdStore t M0 D P' (M |` (- Q))"
proof -
  from inv have PD: "P \<subseteq> {k \<in> D. t k \<noteq> None}" unfolding fwdStore_def by blast
  have tgt: "c \<notin> Q" if "k \<in> D" "t k = Some c" for k c
  proof
    assume "c \<in> Q"
    with Q PD D have "c \<in> K" by auto
    with wp have "c \<in> dom M0" unfolding wellPlaced_def by auto
    moreover from wp that D have "M0 c = None" unfolding wellPlaced_def by blast
    ultimately show False by auto
  qed
  show ?thesis
    unfolding fwdStore_def
  proof (intro conjI ballI allI impI)
    show "P' \<subseteq> {k \<in> D. t k \<noteq> None}" using PD P'(2) by auto
  next
    fix k c assume a: "k \<in> D" "t k = Some c"
    with tgt have "c \<notin> Q" by blast
    with inv a show "(M |` (- Q)) c = M0 k" unfolding fwdStore_def by auto
  next
    fix k assume a: "k \<in> D" "t k \<noteq> None \<and> k \<notin> P'"
    show "(M |` (- Q)) k = None"
    proof (cases "k \<in> Q")
      case True
      then show ?thesis by simp
    next
      case False
      with a P'(1) have "k \<notin> P" by auto
      with inv a show ?thesis unfolding fwdStore_def by (auto simp: restrict_map_def)
    qed
  next
    fix x assume a: "(x \<notin> D \<or> t x = None) \<and> (\<forall>k \<in> D. t k \<noteq> Some x)"
    with Q PD have "x \<notin> Q" by auto
    with inv a show "(M |` (- Q)) x = M0 x" unfolding fwdStore_def by auto
  qed
qed

subsection \<open>The pending keys of a pool\<close>

lemma pendingOf_running:
  assumes "i < length ws" and "snd (ws ! i) = None"
  shows "set (toDelete (sw (fst (ws ! i)))) \<subseteq> pendingOf ws"
  using assms unfolding pendingOf_def by auto

lemma pendingOf_update:
  assumes "i < length ws"
  shows "pendingOf (ws[i := (l', None)]) \<subseteq> pendingOf ws \<union> set (toDelete (sw l'))"
    and "set (toDelete (sw l')) \<subseteq> pendingOf (ws[i := (l', None)])"
    and "pendingOf ws - set (toDelete (sw (fst (ws ! i)))) \<subseteq> pendingOf (ws[i := w'])"
    and "pendingOf (ws[i := (l', Some out)]) \<subseteq> pendingOf ws"
proof -
  show "pendingOf (ws[i := (l', None)]) \<subseteq> pendingOf ws \<union> set (toDelete (sw l'))"
    using assms unfolding pendingOf_def
    by (auto simp: nth_list_update split: if_splits)
  show "set (toDelete (sw l')) \<subseteq> pendingOf (ws[i := (l', None)])"
    using assms unfolding pendingOf_def
    by (auto simp: nth_list_update intro!: exI [of _ i])
  show "pendingOf ws - set (toDelete (sw (fst (ws ! i)))) \<subseteq> pendingOf (ws[i := w'])"
  proof
    fix k assume "k \<in> pendingOf ws - set (toDelete (sw (fst (ws ! i))))"
    then obtain j where j: "j < length ws" "snd (ws ! j) = None"
      "k \<in> set (toDelete (sw (fst (ws ! j))))" and n: "k \<notin> set (toDelete (sw (fst (ws ! i))))"
      unfolding pendingOf_def by auto
    from j(3) n have "j \<noteq> i" by auto
    with j show "k \<in> pendingOf (ws[i := w'])"
      unfolding pendingOf_def by (auto simp: nth_list_update intro!: exI [of _ j])
  qed
  show "pendingOf (ws[i := (l', Some out)]) \<subseteq> pendingOf ws"
    using assms unfolding pendingOf_def
    by (auto simp: nth_list_update split: if_splits)
qed

subsection \<open>The invariant of a forward run\<close>

lemma newKeyOf_skip:
  "(case dsKeyToCid cd (NewKey (BaseNamespace k)) of Inl err \<Rightarrow> True | Inr c \<Rightarrow> Version c = 0) \<Longrightarrow>
   newKeyOf cd k = None"
  by (auto simp: newKeyOf_def split: sum.splits)

lemma newKeyOf_swap:
  "dsKeyToCid cd (NewKey (BaseNamespace k)) = Inr c \<Longrightarrow> Version c \<noteq> 0 \<Longrightarrow>
   newKeyOf cd k = Some (Child (Parent k) (MultihashToDsKey cd (Hash c)))"
  by (simp add: newKeyOf_def)

lemma forwardInvI:
  assumes "ks = done @ map Key rs" and "\<forall>r \<in> set rs. Error r = None"
    and "faults st = noFaults"
    and "fwdStore t M0 (set done) (pendingOf ws) (map_of (kv st))"
    and "ch = ch0 @ map (\<lambda>k. \<lparr>Old = k, New = the (t k)\<rparr>) (filter (\<lambda>k. t k \<noteq> None) done)"
    and "\<forall>w \<in> set ws. noErrors w"
    and "sum_list (map swapCount ws) = of_nat (length (filter (\<lambda>k. t k \<noteq> None) done))"
  shows "forwardInv t M0 ch0 ks done (rs, ws, ch, st)"
  using assms by (simp add: forwardInv_def)

lemma forwardInvD:
  assumes "forwardInv t M0 ch0 ks done (rs, ws, ch, st)"
  shows "ks = done @ map Key rs" and "\<forall>r \<in> set rs. Error r = None"
    and "faults st = noFaults"
    and "fwdStore t M0 (set done) (pendingOf ws) (map_of (kv st))"
    and "ch = ch0 @ map (\<lambda>k. \<lparr>Old = k, New = the (t k)\<rparr>) (filter (\<lambda>k. t k \<noteq> None) done)"
    and "\<forall>w \<in> set ws. noErrors w"
    and "sum_list (map swapCount ws) = of_nat (length (filter (\<lambda>k. t k \<noteq> None) done))"
  using assms by (simp_all add: forwardInv_def)

lemma forwardInv_body:
  assumes inv: "forwardInv (newKeyOf cd) M0 ch0 ks done (res # rs, ws, ch, st)"
    and wp: "wellPlaced (newKeyOf cd) M0 (set ks)" and dist: "distinct ks"
    and sc: "SwapCh cswap"
    and i: "i < length ws" "ws ! i = (l, None)"
    and body: "swapWorker_body cd cfg cswap False res (l, ch, st) = (l', ch', st')"
  shows "forwardInv (newKeyOf cd) M0 ch0 ks (done @ [Key res]) (rs, ws[i := (l', None)], ch', st')"
proof -
  let ?t = "newKeyOf cd"
  let ?k = "Key res"
  let ?M = "map_of (kv st)"
  note d = forwardInvD [OF inv]
  from d(1) have ks: "ks = (done @ [?k]) @ map Key rs" by simp
  from d(1) dist have knew: "?k \<notin> set done" by auto
  from d(1) have kK: "?k \<in> set ks" and DK: "set done \<subseteq> set ks" by auto
  from d(2) have noerr: "Error res = None" and rest: "\<forall>r \<in> set rs. Error r = None" by auto
  from i have "(l, None) \<in> set ws" by (metis nth_mem)
  with d(6) have erri: "errored l = 0" by (auto simp: noErrors_def)
  have pend_i: "set (toDelete (sw l)) \<subseteq> pendingOf ws"
    using pendingOf_running [of i ws] i by simp
  from body show ?thesis
  proof (cases rule: swapWorker_body_cases)
    case (failed e)
    with noerr show ?thesis by simp
  next
    case skip
    from skip(5) have tk: "?t ?k = None" by (rule newKeyOf_skip)
    from i have ws': "ws[i := (l, None)] = ws" by (metis list_update_id)
    have "forwardInv ?t M0 ch0 ks (done @ [?k]) (rs, ws, ch, st)"
    proof (rule forwardInvI)
      show "fwdStore ?t M0 (set (done @ [?k])) (pendingOf ws) (map_of (kv st))"
        using fwdStore_skip [OF d(4) tk] by simp
    qed (use ks rest d tk in simp_all)
    then show ?thesis unfolding skip(2,3,4) ws' .
  next
    case (dry c)
    then show ?thesis by simp
  next
    case (swap c err w')
    let ?c = "Child (Parent ?k) (MultihashToDsKey cd (Hash c))"
    from newKeyOf_swap [OF swap(3,4)] have tk: "?t ?k = Some ?c" .
    from wp kK obtain v where v: "M0 ?k = Some v" unfolding wellPlaced_def by blast
    have "\<forall>k' \<in> set done. ?t k' \<noteq> Some ?k"
    proof
      fix k' assume "k' \<in> set done"
      with DK have "k' \<in> set ks" by auto
      with wp v show "?t k' \<noteq> Some ?k" unfolding wellPlaced_def by force
    qed
    with d(4) knew have "?M ?k = M0 ?k" unfolding fwdStore_def by blast
    with v have Mk: "?M ?k = Some v" by simp
    from swap_ok_effect [OF d(3) Mk, of cfg "sw l" ?c] swap(5)
    have err: "err = None" and f': "faults st' = noFaults"
      and sw': "swapped w' = swapped (sw l) + 1"
      and eff: "(toDelete w' = toDelete (sw l) @ [?k] \<and> map_of (kv st') = ?M(?c \<mapsto> v)) \<or>
                (toDelete w' = [] \<and>
                 map_of (kv st') = (?M(?c \<mapsto> v)) |` (- set (toDelete (sw l) @ [?k])))"
      by auto
    from err swap(6) have l': "l' = l\<lparr>sw := w'\<rparr>"
      and ch': "ch' = send cswap ch \<lparr>Old = ?k, New = ?c\<rparr>" by simp_all
    note put = fwdStore_put [OF d(4) wp kK knew DK tk v]
    note pu1 = pendingOf_update(1) [OF i(1), where l' = l']
    note pu2 = pendingOf_update(2) [OF i(1), where l' = l']
    note pu3 = pendingOf_update(3) [OF i(1), where w' = "(l', None)"]
    have store: "fwdStore ?t M0 (insert ?k (set done)) (pendingOf (ws[i := (l', None)]))
        (map_of (kv st'))"
      using eff
    proof
      assume a: "toDelete w' = toDelete (sw l) @ [?k] \<and> map_of (kv st') = ?M(?c \<mapsto> v)"
      have "pendingOf (ws[i := (l', None)]) = insert ?k (pendingOf ws)"
      proof
        show "pendingOf (ws[i := (l', None)]) \<subseteq> insert ?k (pendingOf ws)"
          using pu1 a l' pend_i by auto
        show "insert ?k (pendingOf ws) \<subseteq> pendingOf (ws[i := (l', None)])"
          using pu2 pu3 a l' i(2) by auto
      qed
      with put a show ?thesis by simp
    next
      assume a: "toDelete w' = [] \<and>
          map_of (kv st') = (?M(?c \<mapsto> v)) |` (- set (toDelete (sw l) @ [?k]))"
      let ?Q = "set (toDelete (sw l) @ [?k])"
      have "fwdStore ?t M0 (insert ?k (set done)) (pendingOf (ws[i := (l', None)]))
          ((?M(?c \<mapsto> v)) |` (- ?Q))"
      proof (rule fwdStore_flush [OF put wp])
        show "insert ?k (set done) \<subseteq> set ks" using kK DK by auto
        show "?Q \<subseteq> insert ?k (pendingOf ws)" using pend_i by auto
        show "insert ?k (pendingOf ws) - ?Q \<subseteq> pendingOf (ws[i := (l', None)])"
          using pu3 i(2) by auto
        show "pendingOf (ws[i := (l', None)]) \<subseteq> insert ?k (pendingOf ws)"
          using pu1 a l' by auto
      qed
      with a show ?thesis by simp
    qed
    have count: "sum_list (map swapCount (ws[i := (l', None)])) =
        of_nat (length (filter (\<lambda>k. ?t k \<noteq> None) (done @ [?k])))"
    proof -
      from sum_list_map_update [OF i(1), of swapCount "(l', None)"]
      have "sum_list (map swapCount (ws[i := (l', None)])) + swapped (sw l) =
          sum_list (map swapCount ws) + (swapped (sw l) + 1)"
        using i(2) l' sw' by (simp add: swapCount_def)
      then have "sum_list (map swapCount (ws[i := (l', None)])) = sum_list (map swapCount ws) + 1"
        by (simp add: add.commute add.left_commute)
      with d(7) tk show ?thesis by simp
    qed
    show ?thesis
    proof (rule forwardInvI)
      show "fwdStore ?t M0 (set (done @ [?k])) (pendingOf (ws[i := (l', None)])) (map_of (kv st'))"
        using store by simp
      show "ch' = ch0 @ map (\<lambda>k. \<lparr>Old = k, New = the (?t k)\<rparr>)
               (filter (\<lambda>k. ?t k \<noteq> None) (done @ [?k]))"
        using ch' d(5) tk sc by (simp add: send_def)
      show "\<forall>w \<in> set (ws[i := (l', None)]). noErrors w"
        using d(6) l' erri set_update_subset_insert [of ws i "(l', None)"]
        by (auto simp: noErrors_def)
    qed (use ks rest f' count in simp_all)
  qed
qed

lemma forwardInv_fin:
  assumes inv: "forwardInv t M0 ch0 ks done ([], ws, ch, st)"
    and wp: "wellPlaced t M0 (set ks)"
    and i: "i < length ws" "ws ! i = (l, None)"
    and fin: "swapWorker_end False l st = (out, st')"
  shows "forwardInv t M0 ch0 ks done ([], ws[i := (l, Some out)], ch, st')"
proof -
  note d = forwardInvD [OF inv]
  from d(1) have DK: "set done \<subseteq> set ks" by auto
  from i have "(l, None) \<in> set ws" by (metis nth_mem)
  with d(6) have erri: "errored l = 0" by (auto simp: noErrors_def)
  from fin have "finalSync l st = (out, st')" by (simp add: swapWorker_end_def)
  with finalSync_ok_effect [OF d(3), of l]
  have out: "out = (swapped (sw l), errored l)" and f': "faults st' = noFaults"
    and M': "map_of (kv st') = map_of (kv st) |` (- set (toDelete (sw l)))"
    by auto
  have pend_i: "set (toDelete (sw l)) \<subseteq> pendingOf ws"
    using pendingOf_running [of i ws] i by simp
  have "fwdStore t M0 (set done) (pendingOf (ws[i := (l, Some out)]))
      (map_of (kv st) |` (- set (toDelete (sw l))))"
  proof (rule fwdStore_flush [OF d(4) wp DK pend_i])
    show "pendingOf ws - set (toDelete (sw l)) \<subseteq> pendingOf (ws[i := (l, Some out)])"
      using pendingOf_update(3) [OF i(1), where w' = "(l, Some out)"] i(2) by simp
    show "pendingOf (ws[i := (l, Some out)]) \<subseteq> pendingOf ws"
      using pendingOf_update(4) [OF i(1)] .
  qed
  with M' have store: "fwdStore t M0 (set done) (pendingOf (ws[i := (l, Some out)]))
      (map_of (kv st'))" by simp
  have count: "sum_list (map swapCount (ws[i := (l, Some out)])) = sum_list (map swapCount ws)"
  proof -
    from sum_list_map_update [OF i(1), of swapCount "(l, Some out)"]
    have "sum_list (map swapCount (ws[i := (l, Some out)])) + swapped (sw l) =
        sum_list (map swapCount ws) + swapped (sw l)"
      using i(2) out by (simp add: swapCount_def)
    then show ?thesis by simp
  qed
  show ?thesis
  proof (rule forwardInvI)
    show "\<forall>w \<in> set (ws[i := (l, Some out)]). noErrors w"
      using d(6) out erri set_update_subset_insert [of ws i "(l, Some out)"]
      by (auto simp: noErrors_def)
  qed (use d f' store count in simp_all)
qed

lemma forwardInv_step:
  assumes inv: "forwardInv (newKeyOf cd) M0 ch0 ks done (rs, ws, ch, st)"
    and wp: "wellPlaced (newKeyOf cd) M0 (set ks)" and dist: "distinct ks"
    and sc: "SwapCh cswap"
  shows "\<exists>done'. forwardInv (newKeyOf cd) M0 ch0 ks done'
           (workerStep cd cfg cswap False i (rs, ws, ch, st))"
proof -
  obtain s' where s': "workerStep cd cfg cswap False i (rs, ws, ch, st) = s'" by simp
  from s' show ?thesis
  proof (cases rule: workerStep_cases)
    case idle
    with inv s' show ?thesis by auto
  next
    case (body l res rs' l' ch' st')
    from forwardInv_body [OF inv [unfolded body(3)] wp dist sc body(1,2,4)] body(5) s'
    show ?thesis by auto
  next
    case (fin l out st')
    from forwardInv_fin [OF inv [unfolded fin(3)] wp fin(1,2,4)] fin(5) s'
    show ?thesis by auto
  qed
qed

lemma forwardInv_steps:
  assumes inv: "\<exists>done. forwardInv (newKeyOf cd) M0 ch0 ks done s"
    and wp: "wellPlaced (newKeyOf cd) M0 (set ks)" and dist: "distinct ks"
    and sc: "SwapCh cswap"
  shows "\<exists>done. forwardInv (newKeyOf cd) M0 ch0 ks done (workerSteps cd cfg cswap False sched s)"
  using inv
proof (induction sched arbitrary: s)
  case Nil
  then show ?case by simp
next
  case (Cons i sched)
  from Cons.prems obtain dn where d: "forwardInv (newKeyOf cd) M0 ch0 ks dn s" by blast
  obtain rs ws ch st where s: "s = (rs, ws, ch, st)" by (metis prod_cases4)
  from forwardInv_step [OF d [unfolded s] wp dist sc, of cfg i] s
  have "\<exists>done'. forwardInv (newKeyOf cd) M0 ch0 ks done' (workerStep cd cfg cswap False i s)"
    by simp
  from Cons.IH [OF this] show ?case by simp
qed

text \<open>With at least one worker the channel is drained at the end of a run.\<close>

lemma runPool_drained:
  assumes "workerSteps cd cfg cswap dryRun (sched @ completion cfg results)
             (results, replicate (NWorkers cfg) (newLocals cswap, None), ch, st) =
           (rs', ws', ch', st')"
    and "NWorkers cfg \<noteq> 0"
  shows "rs' = []"
proof -
  let ?ws0 = "replicate (NWorkers cfg) (newLocals cswap, None :: (64 word \<times> 64 word) option)"
  obtain rs1 ws1 ch1 st1 where
    s1: "workerSteps cd cfg cswap dryRun sched (results, ?ws0, ch, st) = (rs1, ws1, ch1, st1)"
    by (metis prod_cases4)
  obtain rs2 ws2 ch2 st2 where
    s2: "workerSteps cd cfg cswap dryRun (replicate (length results) 0) (rs1, ws1, ch1, st1) =
         (rs2, ws2, ch2, st2)"
    by (metis prod_cases4)
  have s3: "workerSteps cd cfg cswap dryRun [0..<NWorkers cfg] (rs2, ws2, ch2, st2) =
         (rs', ws', ch', st')"
    using assms(1) s1 s2 by (simp add: workerSteps_append completion_def)
  have l1: "length ws1 = NWorkers cfg" "length rs1 \<le> length results"
    using workerSteps_length [OF s1] by simp_all
  have r1: "rs1 \<noteq> [] \<longrightarrow> (\<forall>w \<in> set ws1. snd w = None)"
    by (rule workerSteps_running [OF s1]) simp
  have "ws1 \<noteq> []" using l1 assms(2) by auto
  from workerSteps_drain [OF this r1 l1(2), of cd cfg cswap dryRun ch1 st1] s2
  have "rs2 = []" by simp
  from workerSteps_finish [OF s3 [unfolded \<open>rs2 = []\<close>]] show ?thesis by simp
qed

lemma pendingOf_returned: "\<forall>w \<in> set ws. snd w \<noteq> None \<Longrightarrow> pendingOf ws = {}"
  unfolding pendingOf_def by auto

lemma forwardInv_init:
  assumes "faults st = noFaults"
  shows "forwardInv t (map_of (kv st)) ch0 ks []
     (map (\<lambda>k. \<lparr>Key = k, Error = None\<rparr>) ks, replicate n (newLocals cswap, None), ch0, st)"
proof (rule forwardInvI)
  show "ks = [] @ map Key (map (\<lambda>k. \<lparr>Key = k, Error = None\<rparr>) ks)"
    by (simp add: comp_def)
  show "fwdStore t (map_of (kv st)) (set []) (pendingOf (replicate n (newLocals cswap, None)))
      (map_of (kv st))"
    by (auto simp: fwdStore_def pendingOf_def newLocals_def)
  show "sum_list (map swapCount (replicate n (newLocals cswap, None))) =
      of_nat (length (filter (\<lambda>k. t k \<noteq> None) []))"
    by (simp add: sum_list_replicate swapCount_def newLocals_def)
qed (use assms in \<open>auto simp: noErrors_def newLocals_def\<close>)

text \<open>What a forward run with at least one worker leaves.\<close>

lemma forward_run:
  assumes wp: "wellPlaced (newKeyOf cd) (map_of (kv st)) (set ks)" and dist: "distinct ks"
    and sc: "SwapCh cswap" and nf: "faults st = noFaults" and n: "NWorkers cfg \<noteq> 0"
    and run: "runPool cd cfg cswap False sched (map (\<lambda>k. \<lparr>Key = k, Error = None\<rparr>) ks) (ch0, st) =
              (outs, ch', st')"
  shows "faults st' = noFaults"
    and "fwdStore (newKeyOf cd) (map_of (kv st)) (set ks) {} (map_of (kv st'))"
    and "ch' = ch0 @ map (\<lambda>k. \<lparr>Old = k, New = the (newKeyOf cd k)\<rparr>)
                   (filter (\<lambda>k. newKeyOf cd k \<noteq> None) ks)"
    and "\<forall>out \<in> set outs. snd out = 0"
    and "sum_list (map fst outs) = of_nat (length (filter (\<lambda>k. newKeyOf cd k \<noteq> None) ks))"
proof -
  let ?t = "newKeyOf cd"
  let ?results = "map (\<lambda>k. \<lparr>Key = k, Error = None\<rparr>) ks"
  let ?s0 = "(?results, replicate (NWorkers cfg) (newLocals cswap, None :: (64 word \<times> 64 word) option),
             ch0, st)"
  obtain rs1 ws1 ch1 st1 where
    s: "workerSteps cd cfg cswap False (sched @ completion cfg ?results) ?s0 = (rs1, ws1, ch1, st1)"
    by (metis prod_cases4)
  with run have outs: "outs = returned ws1" and ch: "ch' = ch1" and st: "st' = st1"
    by (simp_all add: runPool_def)
  from runPool_all_returned [OF s] have fin: "\<forall>w \<in> set ws1. snd w \<noteq> None" by simp
  from runPool_drained [OF s n] have rs1: "rs1 = []" .
  have "\<exists>done. forwardInv ?t (map_of (kv st)) ch0 ks done ?s0"
    using forwardInv_init [OF nf] by blast
  from forwardInv_steps [OF this wp dist sc, of cfg "sched @ completion cfg ?results"] s rs1
  obtain dn where "forwardInv ?t (map_of (kv st)) ch0 ks dn ([], ws1, ch1, st1)" by auto
  note d = forwardInvD [OF this]
  from d(1) have dn: "dn = ks" by simp
  from d(3) st show "faults st' = noFaults" by simp
  from d(4) dn st pendingOf_returned [OF fin]
  show "fwdStore ?t (map_of (kv st)) (set ks) {} (map_of (kv st'))" by simp
  from d(5) dn ch
  show "ch' = ch0 @ map (\<lambda>k. \<lparr>Old = k, New = the (?t k)\<rparr>) (filter (\<lambda>k. ?t k \<noteq> None) ks)"
    by simp
  show "\<forall>out \<in> set outs. snd out = 0"
  proof
    fix out assume "out \<in> set outs"
    with outs obtain w where w: "w \<in> set ws1"
      and o: "out = (case snd w of Some out \<Rightarrow> out | None \<Rightarrow> (0, 0))"
      by (auto simp: returned_def)
    from fin w obtain o' where "snd w = Some o'" by auto
    with d(6) w o show "snd out = 0" by (auto simp: noErrors_def)
  qed
  from d(7) returned_swapCount [OF fin] outs dn
  show "sum_list (map fst outs) = of_nat (length (filter (\<lambda>k. ?t k \<noteq> None) ks))"
    by simp
qed

subsection \<open>The store during the reversal\<close>

lemma wellPlaced_target:
  assumes "wellPlaced t M0 K" and "k \<in> K" and "t k = Some c"
  shows "M0 c = None" and "c \<notin> K"
proof -
  from assms show "M0 c = None" unfolding wellPlaced_def by blast
  with assms(1) show "c \<notin> K" unfolding wellPlaced_def by auto
qed

lemma revStore_direct:
  assumes inv: "revStore t M0 V R P m M" and wp: "wellPlaced t M0 K" and V: "V \<subseteq> K"
    and k: "k \<in> V" "k \<notin> R" and c: "t k = Some c" and v: "M c = Some v"
  shows "revStore t M0 V (insert k R) (insert c P) (m(c \<mapsto> k)) (M(k \<mapsto> v))"
    and "M0 k = Some v"
proof -
  from inv k(1) c v show v0: "M0 k = Some v" unfolding revStore_def by force
  have tgt: "c' \<notin> V" if "k' \<in> V" "t k' = Some c'" for k' c'
    using wellPlaced_target(2) [OF wp _ that(2)] that(1) V by auto
  from tgt k(1) c have kc: "k \<noteq> c" by auto
  show "revStore t M0 V (insert k R) (insert c P) (m(c \<mapsto> k)) (M(k \<mapsto> v))"
    unfolding revStore_def
  proof (intro conjI ballI allI impI)
    show "insert k R \<subseteq> V" using inv k(1) unfolding revStore_def by auto
  next
    fix k' assume "k' \<in> insert k R"
    with inv v0 show "(M(k \<mapsto> v)) k' = M0 k'" unfolding revStore_def by auto
  next
    fix k' assume "k' \<in> V - insert k R"
    with inv show "(M(k \<mapsto> v)) k' = None" unfolding revStore_def by auto
  next
    fix x assume "x \<notin> V \<and> (\<forall>k \<in> V. t k \<noteq> Some x)"
    with inv k(1) show "(M(k \<mapsto> v)) x = M0 x" unfolding revStore_def by auto
  next
    fix k' c' assume a: "k' \<in> V" "t k' = Some c'"
    with tgt k(1) have "c' \<noteq> k" by auto
    with inv a show "(M(k \<mapsto> v)) c' = None \<or> (M(k \<mapsto> v)) c' = M0 k'"
      unfolding revStore_def by auto
  next
    fix c' assume a: "c' \<in> insert c P \<or> ((\<exists>k \<in> V. t k = Some c') \<and> (M(k \<mapsto> v)) c' = None)"
    show "\<exists>k' \<in> insert k R. (m(c \<mapsto> k)) c' = Some k' \<and> t k' = Some c'"
    proof (cases "c' = c")
      case True
      with c show ?thesis by auto
    next
      case False
      with a have "c' \<in> P \<or> ((\<exists>k \<in> V. t k = Some c') \<and> M c' = None)"
        by (auto split: if_splits)
      with inv obtain k' where "k' \<in> R" "m c' = Some k'" "t k' = Some c'"
        unfolding revStore_def by blast
      with False show ?thesis by auto
    qed
  next
    fix k' c' assume a: "k' \<in> insert k R" "t k' = Some c'"
    show "(M(k \<mapsto> v)) c' = None \<or> c' \<in> insert c P"
    proof (cases "k' = k")
      case True
      with a c show ?thesis by auto
    next
      case False
      with a have "k' \<in> R" by auto
      moreover from this inv have "k' \<in> V" unfolding revStore_def by auto
      with tgt a(2) k(1) have "c' \<noteq> k" by auto
      ultimately show ?thesis using inv a(2) unfolding revStore_def by auto
    qed
  qed
qed

lemma revStore_collapse:
  assumes inv: "revStore t M0 V R P m M" and wp: "wellPlaced t M0 K" and V: "V \<subseteq> K"
    and k: "k \<in> V" "k \<notin> R" and c: "t k = Some c" and n: "M c = None"
  shows "\<exists>k' v. m c = Some k' \<and> M k' = Some v \<and>
           revStore t M0 V (insert k R) P (m(c \<mapsto> k)) (M(k \<mapsto> v))"
proof -
  from inv k(1) c n obtain k' where k': "k' \<in> R" "m c = Some k'" "t k' = Some c"
    unfolding revStore_def by blast
  from inv k'(1) have k'V: "k' \<in> V" and Mk': "M k' = M0 k'" unfolding revStore_def by auto
  from wp k(1) k'V V c k'(3) have "M0 k = M0 k'" unfolding wellPlaced_def
    by (metis option.distinct(1) subsetD)
  moreover from wp k(1) V obtain v where v0: "M0 k = Some v" unfolding wellPlaced_def by blast
  ultimately have Mv: "M k' = Some v" using Mk' by simp
  have tgt: "c' \<notin> V" if "k'' \<in> V" "t k'' = Some c'" for k'' c'
    using wellPlaced_target(2) [OF wp _ that(2)] that(1) V by auto
  have "revStore t M0 V (insert k R) P (m(c \<mapsto> k)) (M(k \<mapsto> v))"
    unfolding revStore_def
  proof (intro conjI ballI allI impI)
    show "insert k R \<subseteq> V" using inv k(1) unfolding revStore_def by auto
  next
    fix k'' assume "k'' \<in> insert k R"
    with inv v0 show "(M(k \<mapsto> v)) k'' = M0 k''" unfolding revStore_def by auto
  next
    fix k'' assume "k'' \<in> V - insert k R"
    with inv show "(M(k \<mapsto> v)) k'' = None" unfolding revStore_def by auto
  next
    fix x assume "x \<notin> V \<and> (\<forall>k \<in> V. t k \<noteq> Some x)"
    with inv k(1) show "(M(k \<mapsto> v)) x = M0 x" unfolding revStore_def by auto
  next
    fix k'' c' assume a: "k'' \<in> V" "t k'' = Some c'"
    with tgt k(1) have "c' \<noteq> k" by auto
    with inv a show "(M(k \<mapsto> v)) c' = None \<or> (M(k \<mapsto> v)) c' = M0 k''"
      unfolding revStore_def by auto
  next
    fix c' assume a: "c' \<in> P \<or> ((\<exists>k \<in> V. t k = Some c') \<and> (M(k \<mapsto> v)) c' = None)"
    show "\<exists>k' \<in> insert k R. (m(c \<mapsto> k)) c' = Some k' \<and> t k' = Some c'"
    proof (cases "c' = c")
      case True
      with c show ?thesis by auto
    next
      case False
      with a have "c' \<in> P \<or> ((\<exists>k \<in> V. t k = Some c') \<and> M c' = None)"
        by (auto split: if_splits)
      with inv obtain k'' where "k'' \<in> R" "m c' = Some k''" "t k'' = Some c'"
        unfolding revStore_def by blast
      with False show ?thesis by auto
    qed
  next
    fix k'' c' assume a: "k'' \<in> insert k R" "t k'' = Some c'"
    show "(M(k \<mapsto> v)) c' = None \<or> c' \<in> P"
    proof (cases "k'' = k")
      case True
      with a c n tgt k(1) show ?thesis by auto
    next
      case False
      with a have "k'' \<in> R" by auto
      moreover from this inv have "k'' \<in> V" unfolding revStore_def by auto
      with tgt a(2) k(1) have "c' \<noteq> k" by auto
      ultimately show ?thesis using inv a(2) unfolding revStore_def by auto
    qed
  qed
  with k'(2) Mv show ?thesis by blast
qed

lemma revStore_flush:
  assumes inv: "revStore t M0 V R P m M" and wp: "wellPlaced t M0 K" and V: "V \<subseteq> K"
    and Q: "Q \<subseteq> P" and P': "P - Q \<subseteq> P'" "P' \<subseteq> P"
  shows "revStore t M0 V R P' m (M |` (- Q))"
proof -
  have Ptgt: "\<exists>k' \<in> R. m c = Some k' \<and> t k' = Some c" if "c \<in> P" for c
    using inv that unfolding revStore_def by blast
  from inv have RV: "R \<subseteq> V" unfolding revStore_def by blast
  have QV: "x \<notin> Q" if "x \<in> V" for x
  proof
    assume "x \<in> Q"
    with Q Ptgt obtain k' where "k' \<in> R" "t k' = Some x" by blast
    with RV V wellPlaced_target(2) [OF wp _ \<open>t k' = Some x\<close>] that show False by auto
  qed
  show ?thesis
    unfolding revStore_def
  proof (intro conjI ballI allI impI)
    show "R \<subseteq> V" by (rule RV)
  next
    fix k assume "k \<in> R"
    with RV QV have "k \<notin> Q" by auto
    with inv \<open>k \<in> R\<close> show "(M |` (- Q)) k = M0 k" unfolding revStore_def by auto
  next
    fix k assume "k \<in> V - R"
    with inv show "(M |` (- Q)) k = None" unfolding revStore_def by (auto simp: restrict_map_def)
  next
    fix x assume a: "x \<notin> V \<and> (\<forall>k \<in> V. t k \<noteq> Some x)"
    have "x \<notin> Q"
    proof
      assume "x \<in> Q"
      with Q Ptgt obtain k' where "k' \<in> R" "t k' = Some x" by blast
      with RV a show False by auto
    qed
    with inv a show "(M |` (- Q)) x = M0 x" unfolding revStore_def by auto
  next
    fix k c assume "k \<in> V" "t k = Some c"
    with inv show "(M |` (- Q)) c = None \<or> (M |` (- Q)) c = M0 k"
      unfolding revStore_def by (auto simp: restrict_map_def)
  next
    fix c assume a: "c \<in> P' \<or> ((\<exists>k \<in> V. t k = Some c) \<and> (M |` (- Q)) c = None)"
    have "c \<in> P \<or> ((\<exists>k \<in> V. t k = Some c) \<and> M c = None)"
      using a P'(2) Q by (auto simp: restrict_map_def split: if_splits)
    with inv show "\<exists>k' \<in> R. m c = Some k' \<and> t k' = Some c"
      unfolding revStore_def by blast
  next
    fix k c assume a: "k \<in> R" "t k = Some c"
    with inv have "M c = None \<or> c \<in> P" unfolding revStore_def by blast
    with P'(1) show "(M |` (- Q)) c = None \<or> c \<in> P'"
      by (auto simp: restrict_map_def)
  qed
qed

lemma revStore_init:
  assumes f: "fwdStore t M0 K {} M" and wp: "wellPlaced t M0 K"
  shows "revStore t M0 {k \<in> K. t k \<noteq> None} {} {} Map.empty M"
  unfolding revStore_def
proof (intro conjI ballI allI impI)
  fix k assume "k \<in> {k \<in> K. t k \<noteq> None} - {}"
  with f show "M k = None" unfolding fwdStore_def by auto
next
  fix x assume "x \<notin> {k \<in> K. t k \<noteq> None} \<and> (\<forall>k \<in> {k \<in> K. t k \<noteq> None}. t k \<noteq> Some x)"
  then have "(x \<notin> K \<or> t x = None) \<and> (\<forall>k \<in> K. t k \<noteq> Some x)" by auto
  with f show "M x = M0 x" unfolding fwdStore_def by blast
next
  fix k c assume "k \<in> {k \<in> K. t k \<noteq> None}" "t k = Some c"
  with f show "M c = None \<or> M c = M0 k" unfolding fwdStore_def by auto
next
  fix c assume "c \<in> {} \<or> ((\<exists>k \<in> {k \<in> K. t k \<noteq> None}. t k = Some c) \<and> M c = None)"
  then obtain k where k: "k \<in> K" "t k = Some c" and n: "M c = None" by auto
  with f have "M0 k = None" unfolding fwdStore_def by auto
  with wp k(1) have False unfolding wellPlaced_def by auto
  then show "\<exists>k' \<in> {}. Map.empty c = Some k' \<and> t k' = Some c" ..
qed auto

lemma revStore_final:
  assumes r: "revStore t M0 V V {} m M" and wp: "wellPlaced t M0 K" and V: "V \<subseteq> K"
  shows "M = M0"
proof
  fix x
  show "M x = M0 x"
  proof (cases "x \<in> V")
    case True
    with r show ?thesis unfolding revStore_def by blast
  next
    case False
    show ?thesis
    proof (cases "\<exists>k \<in> V. t k = Some x")
      case True
      then obtain k where k: "k \<in> V" "t k = Some x" by blast
      with r have "M x = None" unfolding revStore_def by blast
      moreover from wellPlaced_target(1) [OF wp _ k(2)] k(1) V have "M0 x = None" by auto
      ultimately show ?thesis by simp
    next
      case nt: False
      with r False show ?thesis unfolding revStore_def by blast
    qed
  qed
qed

subsection \<open>The invariant of the reversal\<close>

lemma reverseInv_body:
  assumes inv: "reverseInv t M0 V done (l, m, ch, st)"
    and wp: "wellPlaced t M0 K" and V: "V \<subseteq> K"
    and k: "k \<in> V" "k \<notin> set done" and c: "t k = Some c"
  shows "reverseInv t M0 V (done @ [k])
           (unswapWorker_body cfg cswap \<lparr>Old = k, New = c\<rparr> (l, m, ch, st))"
proof -
  let ?M = "map_of (kv st)"
  let ?P = "set (toDelete (sw l))"
  from inv have nf: "faults st = noFaults"
    and rs: "revStore t M0 V (set done) ?P m ?M"
    and e0: "errored l = 0" and n: "swapped (sw l) = of_nat (length done)"
    by (simp_all add: reverseInv_def)
  show ?thesis
  proof (cases "?M c")
    case (Some v)
    from swap_ok_effect [OF nf Some, of cfg "sw l" k]
    obtain w' st' where s: "swapWorker_swap cfg (sw l) st c k = (None, w', st')"
      and f': "faults st' = noFaults" and sw': "swapped w' = swapped (sw l) + 1"
      and eff: "(toDelete w' = toDelete (sw l) @ [c] \<and> map_of (kv st') = ?M(k \<mapsto> v)) \<or>
                (toDelete w' = [] \<and>
                 map_of (kv st') = (?M(k \<mapsto> v)) |` (- set (toDelete (sw l) @ [c])))"
      by blast
    note direct = revStore_direct(1) [OF rs wp V k c Some]
    have store: "revStore t M0 V (insert k (set done)) (set (toDelete w')) (m(c \<mapsto> k))
        (map_of (kv st'))"
      using eff
    proof
      assume "toDelete w' = toDelete (sw l) @ [c] \<and> map_of (kv st') = ?M(k \<mapsto> v)"
      with direct show ?thesis by simp
    next
      assume a: "toDelete w' = [] \<and>
          map_of (kv st') = (?M(k \<mapsto> v)) |` (- set (toDelete (sw l) @ [c]))"
      have "revStore t M0 V (insert k (set done)) {} (m(c \<mapsto> k))
          ((?M(k \<mapsto> v)) |` (- insert c ?P))"
        by (rule revStore_flush [OF direct wp V]) auto
      with a show ?thesis by simp
    qed
    have "unswapWorker_body cfg cswap \<lparr>Old = k, New = c\<rparr> (l, m, ch, st) =
        (l\<lparr>sw := w'\<rparr>, m(c \<mapsto> k), send cswap ch \<lparr>Old = c, New = k\<rparr>, st')"
      using s by (simp add: unswapWorker_body_def)
    with f' store e0 n sw' show ?thesis by (simp add: reverseInv_def)
  next
    case None
    from swap_notfound_effect [OF nf None, of cfg "sw l" k]
    obtain st1 where s: "swapWorker_swap cfg (sw l) st c k = (Some ErrNotFound, sw l, st1)"
      and f1: "faults st1 = noFaults" and kv1: "kv st1 = kv st" by blast
    from revStore_collapse [OF rs wp V k c None]
    obtain k' v where mc: "m c = Some k'" and Mk': "?M k' = Some v"
      and store: "revStore t M0 V (insert k (set done)) ?P (m(c \<mapsto> k)) (?M(k \<mapsto> v))"
      by blast
    let ?st2 = "emit st1 (OpSync (syncPrefix (sw l))) None"
    let ?st3 = "emit ?st2 (OpGet k') None"
    let ?st4 = "(emit ?st3 (OpPut k v) None)\<lparr>kv := AList.update k v (kv ?st3)\<rparr>"
    have sy: "swapWorker_sync (sw l) st1 = (None, ?st2)"
      using f1 by (simp add: swapWorker_sync_def Sync_ok)
    have g: "Get ?st2 k' = (Inr v, ?st3)"
      using f1 kv1 Mk' by (simp add: Get_ok)
    have p: "Put ?st3 k v = (None, ?st4)"
      using f1 by (simp add: Put_ok)
    have "unswapWorker_body cfg cswap \<lparr>Old = k, New = c\<rparr> (l, m, ch, st) =
        (l\<lparr>sw := (sw l)\<lparr>swapped := swapped (sw l) + 1\<rparr>, errored := errored l\<rparr>,
         m(c \<mapsto> k), send cswap ch \<lparr>Old = c, New = k\<rparr>, ?st4)"
      using s mc sy g p by (simp add: unswapWorker_body_def)
    moreover have "map_of (kv ?st4) = ?M(k \<mapsto> v)"
      using kv1 by (simp add: update_conv')
    moreover have "faults ?st4 = noFaults" using f1 by simp
    ultimately show ?thesis using store e0 n by (simp add: reverseInv_def)
  qed
qed

lemma reverseInv_loop:
  assumes "reverseInv t M0 V dn s" and "wellPlaced t M0 K" and "V \<subseteq> K"
    and "distinct (dn @ rest)" and "set rest \<subseteq> V" and "\<forall>k \<in> set rest. t k \<noteq> None"
  shows "reverseInv t M0 V (dn @ rest)
           (unswapWorker_loop cfg cswap (map (\<lambda>k. \<lparr>Old = k, New = the (t k)\<rparr>) rest) s)"
  using assms
proof (induction rest arbitrary: dn s)
  case Nil
  then show ?case by simp
next
  case (Cons k rest)
  obtain l m ch st where s: "s = (l, m, ch, st)" by (metis prod_cases4)
  from Cons.prems(6) obtain c where c: "t k = Some c" by auto
  from Cons.prems(4,5) have k: "k \<in> V" "k \<notin> set dn" by auto
  from reverseInv_body [OF Cons.prems(1) [unfolded s] Cons.prems(2,3) k c, of cfg cswap]
  have a1: "reverseInv t M0 V (dn @ [k])
      (unswapWorker_body cfg cswap \<lparr>Old = k, New = the (t k)\<rparr> s)"
    using s c by simp
  from Cons.prems(4) have a4: "distinct ((dn @ [k]) @ rest)" by simp
  from Cons.prems(5) have a5: "set rest \<subseteq> V" by simp
  from Cons.prems(6) have a6: "\<forall>k \<in> set rest. t k \<noteq> None" by simp
  from Cons.IH [OF a1 Cons.prems(2,3) a4 a5 a6] show ?case by simp
qed

text \<open>What the reversal of the records of a forward run leaves.\<close>

lemma reverse_run:
  assumes fwd: "fwdStore t M0 (set ks) {} (map_of (kv st))" and wp: "wellPlaced t M0 (set ks)"
    and dist: "distinct ks" and nf: "faults st = noFaults"
  shows "\<exists>ch' st'. CidSwapper_unswapWorker cfg cswap
             (map (\<lambda>k. \<lparr>Old = k, New = the (t k)\<rparr>) (filter (\<lambda>k. t k \<noteq> None) ks)) (ch, st) =
           ((of_nat (length (filter (\<lambda>k. t k \<noteq> None) ks)), 0), ch', st') \<and>
           map_of (kv st') = M0 \<and> faults st' = noFaults"
proof -
  let ?vs = "filter (\<lambda>k. t k \<noteq> None) ks"
  let ?V = "{k \<in> set ks. t k \<noteq> None}"
  let ?recs = "map (\<lambda>k. \<lparr>Old = k, New = the (t k)\<rparr>) ?vs"
  have V: "?V \<subseteq> set ks" by auto
  have "reverseInv t M0 ?V [] (newLocals cswap, Map.empty, ch, st)"
    using revStore_init [OF fwd wp] nf by (simp add: reverseInv_def newLocals_def)
  note init = this
  have d: "distinct ([] @ ?vs)" using dist by simp
  have s1: "set ?vs \<subseteq> ?V" by auto
  have s2: "\<forall>k \<in> set ?vs. t k \<noteq> None" by simp
  from reverseInv_loop [OF init wp V d s1 s2, of cfg cswap]
  have inv: "reverseInv t M0 ?V ?vs
      (unswapWorker_loop cfg cswap ?recs (newLocals cswap, Map.empty, ch, st))"
    by (simp only: append_Nil)
  obtain l m ch1 st1 where
    lp: "unswapWorker_loop cfg cswap ?recs (newLocals cswap, Map.empty, ch, st) = (l, m, ch1, st1)"
    by (rule prod_cases4)
  from inv lp have nf1: "faults st1 = noFaults"
    and rs: "revStore t M0 ?V (set ?vs) (set (toDelete (sw l))) m (map_of (kv st1))"
    and e0: "errored l = 0" and n: "swapped (sw l) = of_nat (length ?vs)"
    by (simp_all add: reverseInv_def)
  from finalSync_ok_effect [OF nf1, of l] obtain st2 where
    fs: "finalSync l st1 = ((swapped (sw l), errored l), st2)"
    and nf2: "faults st2 = noFaults"
    and M2: "map_of (kv st2) = map_of (kv st1) |` (- set (toDelete (sw l)))" by blast
  have "revStore t M0 ?V (set ?vs) {} m (map_of (kv st1) |` (- set (toDelete (sw l))))"
    by (rule revStore_flush [OF rs wp V]) auto
  moreover have "set ?vs = ?V" by auto
  ultimately have "revStore t M0 ?V ?V {} m (map_of (kv st2))" using M2 by simp
  from revStore_final [OF this wp V] have M: "map_of (kv st2) = M0" .
  have r0: "CidSwapper_unswapWorker cfg cswap ?recs (ch, st) =
      ((swapped (sw l), errored l), ch1, st2)"
    unfolding CidSwapper_unswapWorker_def by (simp only: lp fs prod.case)
  have r: "CidSwapper_unswapWorker cfg cswap ?recs (ch, st) =
      ((of_nat (length ?vs), 0), ch1, st2)"
    by (rule trans [OF r0])
      (rule arg_cong2 [where f = "\<lambda>a b. ((a, b), ch1, st2)", OF n e0])
  show ?thesis
    by (rule exI [of _ ch1], rule exI [of _ st2], intro conjI) (rule r, rule M, rule nf2)
qed

subsection \<open>The keys a worker touches\<close>

lemma touchedIn_snoc:
  "touchedIn A (tr @ [(op, r)]) \<longleftrightarrow> touchedIn A tr \<and> (\<forall>z. touches op z \<longrightarrow> z \<in> A)"
  by (auto simp: touchedIn_def)

lemma touchedIn_Nil: "touchedIn A []"
  by (simp add: touchedIn_def)

lemma sync_touch:
  assumes "swapWorker_sync w st = (r, st')" and "trace st = tr0 @ tr" and "touchedIn A tr"
  shows "\<exists>tr'. trace st' = tr0 @ tr' \<and> touchedIn A tr'"
proof -
  from assms(1) have "Sync st (syncPrefix w) = (r, st')" by (simp add: swapWorker_sync_def)
  from Sync_trace [OF this] assms(2) have "trace st' = tr0 @ (tr @ [(OpSync (syncPrefix w), r)])"
    by simp
  moreover have "touchedIn A (tr @ [(OpSync (syncPrefix w), r)])"
    using assms(3) by (simp add: touchedIn_snoc touches_def)
  ultimately show ?thesis by blast
qed

lemma deleteKeys_touch:
  assumes "deleteKeys ks st = (r, st')" and "trace st = tr0 @ tr" and "touchedIn A tr"
    and "set ks \<subseteq> A"
  shows "\<exists>tr'. trace st' = tr0 @ tr' \<and> touchedIn A tr'"
  using assms
proof (induction ks arbitrary: st tr)
  case Nil
  then show ?case by auto
next
  case (Cons k ks)
  obtain r1 st1 where d: "Delete st k = (r1, st1)" by (rule prod.exhaust)
  let ?tr1 = "tr @ [(OpDelete k, r1)]"
  from Delete_trace [OF d] Cons.prems(2) have t1: "trace st1 = tr0 @ ?tr1" by simp
  have a1: "touchedIn A ?tr1"
    using Cons.prems(3,4) by (simp add: touchedIn_snoc touches_def)
  show ?case
  proof (cases r1)
    case (Some e)
    with Cons.prems(1) d have "st' = st1" by simp
    with t1 a1 show ?thesis by blast
  next
    case None
    with Cons.prems(1) d have "deleteKeys ks st1 = (r, st')" by simp
    moreover from Cons.prems(4) have "set ks \<subseteq> A" by simp
    ultimately show ?thesis using Cons.IH [OF _ t1 a1] by blast
  qed
qed

lemma syncAndDelete_touch:
  assumes "swapWorker_syncAndDelete w st = (r, w', st')" and "trace st = tr0 @ tr"
    and "touchedIn A tr" and "set (toDelete w) \<subseteq> A"
  shows "\<exists>tr'. trace st' = tr0 @ tr' \<and> touchedIn A tr' \<and> set (toDelete w') \<subseteq> A"
proof -
  obtain r1 st1 where s: "swapWorker_sync w st = (r1, st1)" by (rule prod.exhaust)
  from sync_touch [OF s assms(2,3)] obtain tr1 where
    t1: "trace st1 = tr0 @ tr1" and a1: "touchedIn A tr1" by blast
  show ?thesis
  proof (cases r1)
    case (Some e)
    with assms(1) s have "w' = w" and "st' = st1"
      by (simp_all add: swapWorker_syncAndDelete_def)
    with t1 a1 assms(4) show ?thesis by blast
  next
    case None
    obtain r2 st2 where d: "deleteKeys (toDelete w) st1 = (r2, st2)" by (rule prod.exhaust)
    from deleteKeys_touch [OF d t1 a1 assms(4)] obtain tr2 where
      t2: "trace st2 = tr0 @ tr2" and a2: "touchedIn A tr2" by blast
    from assms(1) s None d have "st' = st2" and "w' = w \<or> w' = w\<lparr>toDelete := []\<rparr>"
      by (auto simp: swapWorker_syncAndDelete_def split: option.splits)
    with t2 a2 assms(4) show ?thesis by auto
  qed
qed

lemma swap_touch:
  assumes "swapWorker_swap cfg w st old new = (r, w', st')" and "trace st = tr0 @ tr"
    and "touchedIn A tr" and "set (toDelete w) \<subseteq> A" and "old \<in> A" and "new \<in> A"
  shows "\<exists>tr'. trace st' = tr0 @ tr' \<and> touchedIn A tr' \<and> set (toDelete w') \<subseteq> A"
proof -
  obtain g st1 where g: "Get st old = (g, st1)" by (rule prod.exhaust)
  from Get_trace [OF g] obtain e where e: "trace st1 = trace st @ [(OpGet old, e)]" by blast
  let ?tr1 = "tr @ [(OpGet old, e)]"
  from e assms(2) have t1: "trace st1 = tr0 @ ?tr1" by simp
  have a1: "touchedIn A ?tr1"
    using assms(3,5) by (simp add: touchedIn_snoc touches_def)
  show ?thesis
  proof (cases g)
    case (Inl err)
    with assms(1) g have "w' = w" and "st' = st1" by (simp_all add: swapWorker_swap_def)
    with t1 a1 assms(4) show ?thesis by blast
  next
    case (Inr v)
    obtain pe st2 where pu: "Put st1 new v = (pe, st2)" by (rule prod.exhaust)
    let ?tr2 = "?tr1 @ [(OpPut new v, pe)]"
    from Put_trace [OF pu] t1 have t2: "trace st2 = tr0 @ ?tr2" by simp
    have a2: "touchedIn A ?tr2"
      using a1 assms(6) touchedIn_snoc [of A ?tr1 "OpPut new v" pe] by (simp add: touches_def)
    show ?thesis
    proof (cases pe)
      case (Some err)
      with assms(1) g Inr pu have "w' = w" and "st' = st2"
        by (simp_all add: swapWorker_swap_def)
      with t2 a2 assms(4) show ?thesis by blast
    next
      case None
      let ?w1 = "w\<lparr>toDelete := toDelete w @ [old], swapped := swapped w + 1,
                    curSyncSize := curSyncSize w + of_nat (length v)\<rparr>"
      have p1: "set (toDelete ?w1) \<subseteq> A" using assms(4,5) by simp
      show ?thesis
      proof (cases "SyncSize cfg \<le> curSyncSize ?w1")
        case True
        with assms(1) g Inr pu None
        have "swapWorker_syncAndDelete (?w1\<lparr>curSyncSize := 0\<rparr>) st2 = (r, w', st')"
          by (simp add: swapWorker_swap_def Let_def)
        moreover from p1 have "set (toDelete (?w1\<lparr>curSyncSize := 0\<rparr>)) \<subseteq> A" by simp
        ultimately show ?thesis using syncAndDelete_touch [OF _ t2 a2] by blast
      next
        case False
        with assms(1) g Inr pu None have "w' = ?w1" and "st' = st2"
          by (simp_all add: swapWorker_swap_def Let_def)
        with t2 a2 p1 show ?thesis by blast
      qed
    qed
  qed
qed

lemma finalSync_touch:
  assumes "finalSync l st = (out, st')" and "trace st = tr0 @ tr"
    and "touchedIn A tr" and "set (toDelete (sw l)) \<subseteq> A"
  shows "\<exists>tr'. trace st' = tr0 @ tr' \<and> touchedIn A tr'"
proof -
  obtain r1 w1 st1 where a: "swapWorker_syncAndDelete (sw l) st = (r1, w1, st1)"
    by (rule prod_cases3)
  from syncAndDelete_touch [OF a assms(2,3,4)] obtain tr1 where
    t1: "trace st1 = tr0 @ tr1" and a1: "touchedIn A tr1" by blast
  obtain r2 st2 where b: "swapWorker_sync w1 st1 = (r2, st2)" by (rule prod.exhaust)
  from assms(1) a b have "st' = st2" by (simp add: finalSync_def Let_def)
  with sync_touch [OF b t1 a1] show ?thesis by simp
qed

lemma swapWorker_body_touch:
  assumes "swapWorker_body cd cfg cswap dryRun res (l, ch, st) = (l', ch', st')"
    and "trace st = tr0 @ tr" and "touchedIn A tr" and "set (toDelete (sw l)) \<subseteq> A"
    and "\<forall>c. newKeyOf cd (Key res) = Some c \<longrightarrow> Key res \<in> A \<and> c \<in> A"
  shows "\<exists>tr'. trace st' = tr0 @ tr' \<and> touchedIn A tr' \<and> set (toDelete (sw l')) \<subseteq> A"
  using assms(1)
proof (cases rule: swapWorker_body_cases)
  case (failed e)
  with assms(2,3,4) show ?thesis by auto
next
  case skip
  with assms(2,3,4) show ?thesis by auto
next
  case (dry c)
  with assms(2,3,4) show ?thesis by auto
next
  case (swap c err w')
  from newKeyOf_swap [OF swap(3,4)] assms(5)
  have "Key res \<in> A" and "Child (Parent (Key res)) (MultihashToDsKey cd (Hash c)) \<in> A"
    by auto
  from swap_touch [OF swap(5) assms(2,3,4) this] swap(6,7) show ?thesis
    by (cases err) auto
qed

lemma list_update_all:
  assumes "\<forall>w \<in> set ws. P w" and "P x"
  shows "\<forall>w \<in> set (ws[i := x]). P w"
  using assms set_update_subset_insert [of ws i x] by blast

lemma workerStep_touch:
  assumes step: "workerStep cd cfg cswap dryRun i (rs, ws, ch, st) = (rs', ws', ch', st')"
    and "trace st = tr0 @ tr" and "touchedIn A tr"
    and pend: "\<forall>w \<in> set ws. set (toDelete (sw (fst w))) \<subseteq> A"
    and keys: "\<forall>r \<in> set rs. \<forall>c. newKeyOf cd (Key r) = Some c \<longrightarrow> Key r \<in> A \<and> c \<in> A"
  shows "(\<exists>tr'. trace st' = tr0 @ tr' \<and> touchedIn A tr') \<and>
         (\<forall>w \<in> set ws'. set (toDelete (sw (fst w))) \<subseteq> A) \<and>
         (\<forall>r \<in> set rs'. \<forall>c. newKeyOf cd (Key r) = Some c \<longrightarrow> Key r \<in> A \<and> c \<in> A)"
  using step
proof (cases rule: workerStep_cases)
  case idle
  with assms show ?thesis by auto
next
  case (body l res rs1 l1 ch1 st1)
  from body(1,2) have "(l, None) \<in> set ws" by (metis nth_mem)
  from bspec [OF pend this] have p: "set (toDelete (sw l)) \<subseteq> A" by simp
  from keys body(3) have k: "\<forall>c. newKeyOf cd (Key res) = Some c \<longrightarrow> Key res \<in> A \<and> c \<in> A"
    by simp
  from swapWorker_body_touch [OF body(4) assms(2,3) p k] obtain tr1 where
    t: "trace st1 = tr0 @ tr1" "touchedIn A tr1" and p1: "set (toDelete (sw l1)) \<subseteq> A" by blast
  have "\<forall>w \<in> set (ws[i := (l1, None)]). set (toDelete (sw (fst w))) \<subseteq> A"
    by (rule list_update_all [OF pend]) (simp add: p1)
  with t body(3,5) keys show ?thesis by auto
next
  case (fin l out st1)
  from fin(1,2) have "(l, None) \<in> set ws" by (metis nth_mem)
  from bspec [OF pend this] have p: "set (toDelete (sw l)) \<subseteq> A" by simp
  have "\<exists>tr'. trace st1 = tr0 @ tr' \<and> touchedIn A tr'"
  proof (cases dryRun)
    case True
    with fin(4) have "st1 = st" by (simp add: swapWorker_end_def)
    with assms(2,3) show ?thesis by blast
  next
    case False
    with fin(4) have "finalSync l st = (out, st1)" by (simp add: swapWorker_end_def)
    from finalSync_touch [OF this assms(2,3) p] show ?thesis .
  qed
  moreover have "\<forall>w \<in> set (ws[i := (l, Some out)]). set (toDelete (sw (fst w))) \<subseteq> A"
    by (rule list_update_all [OF pend]) (simp add: p)
  ultimately show ?thesis using fin(3,5) by auto
qed

lemma workerSteps_touch:
  assumes "workerSteps cd cfg cswap dryRun sched (rs, ws, ch, st) = (rs', ws', ch', st')"
    and "trace st = tr0 @ tr" and "touchedIn A tr"
    and "\<forall>w \<in> set ws. set (toDelete (sw (fst w))) \<subseteq> A"
    and "\<forall>r \<in> set rs. \<forall>c. newKeyOf cd (Key r) = Some c \<longrightarrow> Key r \<in> A \<and> c \<in> A"
  shows "\<exists>tr'. trace st' = tr0 @ tr' \<and> touchedIn A tr'"
  using assms
proof (induction sched arbitrary: rs ws ch st tr)
  case Nil
  then show ?case by auto
next
  case (Cons i sched)
  obtain rs1 ws1 ch1 st1 where
    s1: "workerStep cd cfg cswap dryRun i (rs, ws, ch, st) = (rs1, ws1, ch1, st1)"
    by (rule prod_cases4)
  from workerStep_touch [OF s1 Cons.prems(2,3,4,5)] obtain tr1 where
    t: "trace st1 = tr0 @ tr1" "touchedIn A tr1"
    and p: "\<forall>w \<in> set ws1. set (toDelete (sw (fst w))) \<subseteq> A"
    and k: "\<forall>r \<in> set rs1. \<forall>c. newKeyOf cd (Key r) = Some c \<longrightarrow> Key r \<in> A \<and> c \<in> A"
    by blast
  from Cons.prems(1) s1
  have "workerSteps cd cfg cswap dryRun sched (rs1, ws1, ch1, st1) = (rs', ws', ch', st')"
    by simp
  from Cons.IH [OF this t p k] show ?case .
qed

lemma unswapWorker_body_touch:
  assumes "unswapWorker_body cfg cswap rec (l, m, ch, st) = (l', m', ch', st')"
    and "trace st = tr0 @ tr" and "touchedIn A tr" and "set (toDelete (sw l)) \<subseteq> A"
    and "ran m \<subseteq> A" and "Old rec \<in> A" and "New rec \<in> A"
  shows "\<exists>tr'. trace st' = tr0 @ tr' \<and> touchedIn A tr' \<and> set (toDelete (sw l')) \<subseteq> A \<and>
           ran m' \<subseteq> A"
proof -
  obtain err w1 st1 where
    s: "swapWorker_swap cfg (sw l) st (New rec) (Old rec) = (err, w1, st1)"
    by (rule prod_cases3)
  from swap_touch [OF s assms(2,3,4,7,6)] obtain tr1 where
    t1: "trace st1 = tr0 @ tr1" and a1: "touchedIn A tr1" and p1: "set (toDelete w1) \<subseteq> A"
    by blast
  have ran': "ran (m(New rec \<mapsto> Old rec)) \<subseteq> A"
    using assms(5,6) by (auto simp: ran_def)
  show ?thesis
  proof (cases "err = Some ErrNotFound")
    case False
    with assms(1) s have "st' = st1" and "sw l' = w1" and "m' = m \<or> m' = m(New rec \<mapsto> Old rec)"
      by (auto simp: unswapWorker_body_def split: if_splits)
    with t1 a1 p1 assms(5) ran' show ?thesis by auto
  next
    case nf: True
    show ?thesis
    proof (cases "m (New rec)")
      case None
      with assms(1) s nf have "st' = st1" and "sw l' = w1" and "m' = m"
        by (auto simp: unswapWorker_body_def)
      with t1 a1 p1 assms(5) show ?thesis by auto
    next
      case (Some swappedTo)
      with assms(5) have sA: "swappedTo \<in> A" by (auto simp: ran_def)
      obtain r2 st2 where sy: "swapWorker_sync w1 st1 = (r2, st2)" by (rule prod.exhaust)
      from sync_touch [OF sy t1 a1] obtain tr2 where
        t2: "trace st2 = tr0 @ tr2" and a2: "touchedIn A tr2" by blast
      obtain g st3 where g: "Get st2 swappedTo = (g, st3)" by (rule prod.exhaust)
      from Get_trace [OF g] obtain e where
        e: "trace st3 = trace st2 @ [(OpGet swappedTo, e)]" by blast
      let ?tr3 = "tr2 @ [(OpGet swappedTo, e)]"
      from e t2 have t3: "trace st3 = tr0 @ ?tr3" by simp
      have a3: "touchedIn A ?tr3" using a2 sA by (simp add: touchedIn_snoc touches_def)
      show ?thesis
      proof (cases g)
        case (Inl ge)
        with assms(1) s nf Some sy g have "st' = st3" and "sw l' = w1" and "m' = m"
          by (auto simp: unswapWorker_body_def)
        with t3 a3 p1 assms(5) show ?thesis by auto
      next
        case (Inr v)
        obtain pe st4 where pu: "Put st3 (Old rec) v = (pe, st4)" by (rule prod.exhaust)
        let ?tr4 = "?tr3 @ [(OpPut (Old rec) v, pe)]"
        from Put_trace [OF pu] t3 have t4: "trace st4 = tr0 @ ?tr4" by simp
        have a4: "touchedIn A ?tr4"
          using a3 assms(6) touchedIn_snoc [of A ?tr3 "OpPut (Old rec) v" pe]
          by (simp add: touches_def)
        from assms(1) s nf Some sy g Inr pu
        have "st' = st4" and "toDelete (sw l') = toDelete w1" and "m' = m(New rec \<mapsto> Old rec)"
          by (auto simp: unswapWorker_body_def)
        with t4 a4 p1 ran' show ?thesis by auto
      qed
    qed
  qed
qed

lemma unswapWorker_loop_touch:
  assumes "unswapWorker_loop cfg cswap recs (l, m, ch, st) = (l', m', ch', st')"
    and "trace st = tr0 @ tr" and "touchedIn A tr" and "set (toDelete (sw l)) \<subseteq> A"
    and "ran m \<subseteq> A" and "\<forall>rec \<in> set recs. Old rec \<in> A \<and> New rec \<in> A"
  shows "\<exists>tr'. trace st' = tr0 @ tr' \<and> touchedIn A tr' \<and> set (toDelete (sw l')) \<subseteq> A"
  using assms
proof (induction recs arbitrary: l m ch st tr)
  case Nil
  then show ?case by auto
next
  case (Cons rec recs)
  obtain l1 m1 ch1 st1 where
    b: "unswapWorker_body cfg cswap rec (l, m, ch, st) = (l1, m1, ch1, st1)"
    by (rule prod_cases4)
  from Cons.prems(6) have o: "Old rec \<in> A" and n: "New rec \<in> A" by simp_all
  from unswapWorker_body_touch [OF b Cons.prems(2,3,4,5) o n] obtain tr1 where
    t: "trace st1 = tr0 @ tr1" "touchedIn A tr1" "set (toDelete (sw l1)) \<subseteq> A" "ran m1 \<subseteq> A"
    by blast
  from Cons.prems(1) b
  have u: "unswapWorker_loop cfg cswap recs (l1, m1, ch1, st1) = (l', m', ch', st')" by simp
  from Cons.prems(6) have r: "\<forall>rec \<in> set recs. Old rec \<in> A \<and> New rec \<in> A" by simp
  from Cons.IH [OF u t r] show ?case .
qed

subsection \<open>The steps of a flush under any fault plan\<close>

lemma deleteKeys_shape:
  assumes "deleteKeys ks st = (err, st')"
  shows "(err = None \<and> trace st' = trace st @ map (\<lambda>k. (OpDelete k, None)) ks) \<or>
         (\<exists>j e. j < length ks \<and> err = Some e \<and>
                trace st' = trace st @ map (\<lambda>k. (OpDelete k, None)) (take j ks) @
                  [(OpDelete (ks ! j), Some e)])"
  using assms
proof (induction ks arbitrary: st)
  case Nil
  then show ?case by simp
next
  case (Cons k ks)
  obtain r1 st1 where d: "Delete st k = (r1, st1)" by (rule prod.exhaust)
  note t1 = Delete_trace [OF d]
  show ?case
  proof (cases r1)
    case (Some e)
    with Cons.prems d have "err = Some e" and "st' = st1" by simp_all
    with t1 Some have "0 < length (k # ks) \<and> err = Some e \<and>
        trace st' = trace st @ map (\<lambda>k. (OpDelete k, None)) (take 0 (k # ks)) @
          [(OpDelete ((k # ks) ! 0), Some e)]"
      by simp
    then show ?thesis by blast
  next
    case None
    with Cons.prems d have r: "deleteKeys ks st1 = (err, st')" by simp
    from Cons.IH [OF r] show ?thesis
    proof
      assume "err = None \<and> trace st' = trace st1 @ map (\<lambda>k. (OpDelete k, None)) ks"
      with t1 None show ?thesis by simp
    next
      assume "\<exists>j e. j < length ks \<and> err = Some e \<and>
                trace st' = trace st1 @ map (\<lambda>k. (OpDelete k, None)) (take j ks) @
                  [(OpDelete (ks ! j), Some e)]"
      then obtain j e where j: "j < length ks" "err = Some e"
        "trace st' = trace st1 @ map (\<lambda>k. (OpDelete k, None)) (take j ks) @
                  [(OpDelete (ks ! j), Some e)]" by blast
      with t1 None have "Suc j < length (k # ks) \<and> err = Some e \<and>
        trace st' = trace st @ map (\<lambda>k. (OpDelete k, None)) (take (Suc j) (k # ks)) @
          [(OpDelete ((k # ks) ! Suc j), Some e)]"
        by simp
      then show ?thesis by blast
    qed
  qed
qed

lemma syncAndDelete_shape:
  assumes "swapWorker_syncAndDelete w st = (err, w', st')"
  shows "(\<exists>e. err = Some e \<and> w' = w \<and> kv st' = kv st \<and>
              trace st' = trace st @ [(OpSync (syncPrefix w), Some e)]) \<or>
         (err = None \<and> w' = w\<lparr>toDelete := []\<rparr> \<and>
            trace st' = trace st @
              (OpSync (syncPrefix w), None) # map (\<lambda>k. (OpDelete k, None)) (toDelete w)) \<or>
         (\<exists>j e. j < length (toDelete w) \<and> err = Some e \<and> w' = w \<and>
              trace st' = trace st @
                (OpSync (syncPrefix w), None) #
                map (\<lambda>k. (OpDelete k, None)) (take j (toDelete w)) @
                [(OpDelete (toDelete w ! j), Some e)])"
proof -
  obtain r1 st1 where s: "Sync st (syncPrefix w) = (r1, st1)" by (rule prod.exhaust)
  note t1 = Sync_trace [OF s]
  show ?thesis
  proof (cases r1)
    case (Some e)
    with s have "kv st1 = kv st" by (auto simp: Sync_def split: option.splits)
    moreover from assms s Some have "err = Some e" "w' = w" "st' = st1"
      by (simp_all add: swapWorker_syncAndDelete_def swapWorker_sync_def)
    ultimately have "err = Some e \<and> w' = w \<and> kv st' = kv st \<and>
        trace st' = trace st @ [(OpSync (syncPrefix w), Some e)]"
      using t1 Some by simp
    then show ?thesis by blast
  next
    case None
    obtain r2 st2 where d: "deleteKeys (toDelete w) st1 = (r2, st2)" by (rule prod.exhaust)
    from assms s None d have e: "err = r2" "st' = st2"
      and w: "w' = (if r2 = None then w\<lparr>toDelete := []\<rparr> else w)"
      by (auto simp: swapWorker_syncAndDelete_def swapWorker_sync_def split: option.splits)
    from deleteKeys_shape [OF d] show ?thesis
    proof
      assume "r2 = None \<and> trace st2 = trace st1 @ map (\<lambda>k. (OpDelete k, None)) (toDelete w)"
      with e w t1 None show ?thesis by simp
    next
      assume "\<exists>j e. j < length (toDelete w) \<and> r2 = Some e \<and>
                trace st2 = trace st1 @ map (\<lambda>k. (OpDelete k, None)) (take j (toDelete w)) @
                  [(OpDelete (toDelete w ! j), Some e)]"
      then obtain j x where "j < length (toDelete w)" "r2 = Some x"
        "trace st2 = trace st1 @ map (\<lambda>k. (OpDelete k, None)) (take j (toDelete w)) @
                  [(OpDelete (toDelete w ! j), Some x)]" by blast
      with e w t1 None have "j < length (toDelete w) \<and> err = Some x \<and> w' = w \<and>
              trace st' = trace st @
                (OpSync (syncPrefix w), None) #
                map (\<lambda>k. (OpDelete k, None)) (take j (toDelete w)) @
                [(OpDelete (toDelete w ! j), Some x)]" by simp
      then show ?thesis by blast
    qed
  qed
qed

lemma swap_at_threshold:
  assumes "Get st old = (Inr v, st1)" and "Put st1 new v = (None, st2)"
  shows "trace st2 = trace st @ [(OpGet old, None), (OpPut new v, None)]"
    and "swapWorker_swap cfg w st old new =
         (if SyncSize cfg \<le> curSyncSize w + of_nat (length v)
          then swapWorker_syncAndDelete
                 (w\<lparr>toDelete := toDelete w @ [old], swapped := swapped w + 1,
                     curSyncSize := 0\<rparr>) st2
          else (None, w\<lparr>toDelete := toDelete w @ [old], swapped := swapped w + 1,
                        curSyncSize := curSyncSize w + of_nat (length v)\<rparr>, st2))"
proof -
  from Get_trace [OF assms(1)] have "trace st1 = trace st @ [(OpGet old, None)]" by auto
  with Put_trace [OF assms(2)] show "trace st2 = trace st @ [(OpGet old, None), (OpPut new v, None)]"
    by simp
  show "swapWorker_swap cfg w st old new =
         (if SyncSize cfg \<le> curSyncSize w + of_nat (length v)
          then swapWorker_syncAndDelete
                 (w\<lparr>toDelete := toDelete w @ [old], swapped := swapped w + 1,
                     curSyncSize := 0\<rparr>) st2
          else (None, w\<lparr>toDelete := toDelete w @ [old], swapped := swapped w + 1,
                        curSyncSize := curSyncSize w + of_nat (length v)\<rparr>, st2))"
    using assms by (simp add: swapWorker_swap_def Let_def)
qed

lemma finalSync_shape:
  assumes "swapWorker_syncAndDelete (sw l) st = (err, w1, st1)"
    and "swapWorker_end False l st = (out, st')"
  shows "\<exists>r. trace st' = trace st1 @ [(OpSync (syncPrefix (sw l)), r)] \<and> kv st' = kv st1 \<and>
             out = (swapped (sw l),
                    errored l + (if err = None then 0 else 1) + (if r = None then 0 else 1))"
proof -
  from syncAndDelete_shape [OF assms(1)] have w1: "syncPrefix w1 = syncPrefix (sw l)"
    "swapped w1 = swapped (sw l)" by auto
  obtain r st2 where s: "Sync st1 (syncPrefix (sw l)) = (r, st2)" by (rule prod.exhaust)
  then have k: "kv st2 = kv st1" by (auto simp: Sync_def split: option.splits)
  from assms s w1 have "st' = st2" and
    "out = (swapped (sw l),
            errored l + (if err = None then 0 else 1) + (if r = None then 0 else 1))"
    by (auto simp: swapWorker_end_def finalSync_def swapWorker_sync_def Let_def)
  with Sync_trace [OF s] k show ?thesis by blast
qed

subsection \<open>The flush at the threshold and at the end of a worker (C4)\<close>

text \<open>
  C4, as stated, fails: the flush that \<^verbatim>\<open>swap\<close> triggers when the byte counter reaches
  \<^verbatim>\<open>SyncSize\<close> is \<^verbatim>\<open>syncAndDelete\<close> alone, a sync followed by the deletes, with no
  second sync; and a dry-run worker ends without any flush. On a store with the one key
  \<open>blocks/1aQx\<close> and a threshold of one byte, \<^verbatim>\<open>swap\<close> issues Get, Put, Sync, Delete and
  returns; the dry-run worker leaves the store and its (empty) trace as they were.
\<close>

theorem threshold_flush_counterexample:
  "swapWorker_swap \<lparr>SyncSize = 1, NWorkers = 4\<rparr> (sw (newLocals exSwapper))
     (mkStore [([''blocks'', ''1aQx''], ''v'')] noFaults)
     [''blocks'', ''1aQx''] [''blocks'', ''Qx''] =
   (None,
    \<lparr>swapped = 1, curSyncSize = 0, syncPrefix = [''blocks''], toDelete = []\<rparr>,
    \<lparr>kv = [([''blocks'', ''Qx''], ''v'')], faults = noFaults,
      trace = [(OpGet [''blocks'', ''1aQx''], None), (OpPut [''blocks'', ''Qx''] ''v'', None),
               (OpSync [''blocks''], None), (OpDelete [''blocks'', ''1aQx''], None)]\<rparr>) \<and>
   CidSwapper_swapWorker exCodec \<lparr>SyncSize = 1, NWorkers = 4\<rparr> exSwapper True
     [\<lparr>Key = [''blocks'', ''1aQx''], Error = None\<rparr>]
     ([], mkStore [([''blocks'', ''1aQx''], ''v'')] noFaults) =
   ((1, 0), [\<lparr>Old = [''blocks'', ''1aQx''], New = [''blocks'', ''Qx'']\<rparr>],
    mkStore [([''blocks'', ''1aQx''], ''v'')] noFaults)"
  by (simp add: run_defs CidSwapper_swapWorker_def swapWorker_body_def swapWorker_end_def
      exCodec_v1a exCodec_mh Parent_def Child_def)

text \<open>
  C4, amended, for every fault plan. A flush (\<^verbatim>\<open>syncAndDelete\<close>) has two steps, the sync
  of the prefix and the deletes of the pending keys in order, and it stops at the first
  operation that fails: when the sync fails no delete is issued, when a delete fails the
  later pending keys are not deleted, and in both cases the error is returned and the
  pending list is kept whole; when nothing fails the pending list is emptied. No sync
  follows the deletes. A \<^verbatim>\<open>swap\<close> whose Get and Put succeed issues these two operations,
  and then, when the byte counter with the length of the value added reaches \<^verbatim>\<open>SyncSize\<close>,
  it does exactly one such flush with the old key appended to the pending list and the
  counter reset to 0; below the threshold it issues nothing more. At the end of a worker
  of a real run there are three steps: the flush, and then one more sync of the prefix,
  which is issued even when the flush failed; each of the two that fails is counted as
  one error. A dry-run worker ends without issuing any operation. In particular, on a
  store whose operations do not fail, the threshold flush is Get, Put, Sync and the
  deletes of all pending keys (this swap's old key last), and the end of a real worker
  is Sync, the deletes of all pending keys, Sync.
\<close>

theorem flush_steps:
  "(case swapWorker_syncAndDelete w st of
      (err, w', st') \<Rightarrow>
        (\<exists>e. err = Some e \<and> w' = w \<and> kv st' = kv st \<and>
             trace st' = trace st @ [(OpSync (syncPrefix w), Some e)]) \<or>
        (err = None \<and> w' = w\<lparr>toDelete := []\<rparr> \<and>
           trace st' = trace st @
             (OpSync (syncPrefix w), None) # map (\<lambda>k. (OpDelete k, None)) (toDelete w)) \<or>
        (\<exists>j e. j < length (toDelete w) \<and> err = Some e \<and> w' = w \<and>
             trace st' = trace st @
               (OpSync (syncPrefix w), None) #
               map (\<lambda>k. (OpDelete k, None)) (take j (toDelete w)) @
               [(OpDelete (toDelete w ! j), Some e)])) \<and>
   (\<forall>u st1 st2. Get st old = (Inr u, st1) \<and> Put st1 new u = (None, st2) \<longrightarrow>
      trace st2 = trace st @ [(OpGet old, None), (OpPut new u, None)] \<and>
      swapWorker_swap cfg w st old new =
        (if SyncSize cfg \<le> curSyncSize w + of_nat (length u)
         then swapWorker_syncAndDelete
                (w\<lparr>toDelete := toDelete w @ [old], swapped := swapped w + 1,
                    curSyncSize := 0\<rparr>) st2
         else (None, w\<lparr>toDelete := toDelete w @ [old], swapped := swapped w + 1,
                       curSyncSize := curSyncSize w + of_nat (length u)\<rparr>, st2))) \<and>
   (case swapWorker_end False l st of
      (out, st') \<Rightarrow>
        (case swapWorker_syncAndDelete (sw l) st of
           (err, w1, st1) \<Rightarrow>
             (\<exists>r. trace st' = trace st1 @ [(OpSync (syncPrefix (sw l)), r)] \<and>
                  kv st' = kv st1 \<and>
                  out = (swapped (sw l),
                         errored l + (if err = None then 0 else 1) +
                         (if r = None then 0 else 1))))) \<and>
   swapWorker_end True l st = ((swapped (sw l), errored l), st) \<and>
   (faults st = noFaults \<and> map_of (kv st) old = Some v \<longrightarrow>
      (case swapWorker_swap cfg w st old new of
         (err, w', st') \<Rightarrow>
           err = None \<and>
           (if SyncSize cfg \<le> curSyncSize w + of_nat (length v)
            then curSyncSize w' = 0 \<and> toDelete w' = [] \<and>
                 trace st' = trace st @
                   map (\<lambda>op. (op, None))
                     ([OpGet old, OpPut new v, OpSync (syncPrefix w)] @
                      map OpDelete (toDelete w @ [old]))
            else curSyncSize w' = curSyncSize w + of_nat (length v) \<and>
                 toDelete w' = toDelete w @ [old] \<and>
                 trace st' = trace st @ [(OpGet old, None), (OpPut new v, None)]))) \<and>
   (faults st = noFaults \<longrightarrow>
      (case swapWorker_end False l st of
         (out, st') \<Rightarrow>
           out = (swapped (sw l), errored l) \<and>
           trace st' = trace st @
             map (\<lambda>op. (op, None))
               ([OpSync (syncPrefix (sw l))] @ map OpDelete (toDelete (sw l)) @
                [OpSync (syncPrefix (sw l))])))"
proof (intro conjI)
  obtain err w' st' where a: "swapWorker_syncAndDelete w st = (err, w', st')"
    by (rule prod_cases3)
  from syncAndDelete_shape [OF a] show "case swapWorker_syncAndDelete w st of
      (err, w', st') \<Rightarrow>
        (\<exists>e. err = Some e \<and> w' = w \<and> kv st' = kv st \<and>
             trace st' = trace st @ [(OpSync (syncPrefix w), Some e)]) \<or>
        (err = None \<and> w' = w\<lparr>toDelete := []\<rparr> \<and>
           trace st' = trace st @
             (OpSync (syncPrefix w), None) # map (\<lambda>k. (OpDelete k, None)) (toDelete w)) \<or>
        (\<exists>j e. j < length (toDelete w) \<and> err = Some e \<and> w' = w \<and>
             trace st' = trace st @
               (OpSync (syncPrefix w), None) #
               map (\<lambda>k. (OpDelete k, None)) (take j (toDelete w)) @
               [(OpDelete (toDelete w ! j), Some e)])"
    unfolding a by (simp only: prod.case)
next
  show "\<forall>u st1 st2. Get st old = (Inr u, st1) \<and> Put st1 new u = (None, st2) \<longrightarrow>
      trace st2 = trace st @ [(OpGet old, None), (OpPut new u, None)] \<and>
      swapWorker_swap cfg w st old new =
        (if SyncSize cfg \<le> curSyncSize w + of_nat (length u)
         then swapWorker_syncAndDelete
                (w\<lparr>toDelete := toDelete w @ [old], swapped := swapped w + 1,
                    curSyncSize := 0\<rparr>) st2
         else (None, w\<lparr>toDelete := toDelete w @ [old], swapped := swapped w + 1,
                       curSyncSize := curSyncSize w + of_nat (length u)\<rparr>, st2))"
  proof (intro allI impI)
    fix u st1 st2
    assume "Get st old = (Inr u, st1) \<and> Put st1 new u = (None, st2)"
    then have g: "Get st old = (Inr u, st1)" and p: "Put st1 new u = (None, st2)"
      by simp_all
    show "trace st2 = trace st @ [(OpGet old, None), (OpPut new u, None)] \<and>
      swapWorker_swap cfg w st old new =
        (if SyncSize cfg \<le> curSyncSize w + of_nat (length u)
         then swapWorker_syncAndDelete
                (w\<lparr>toDelete := toDelete w @ [old], swapped := swapped w + 1,
                    curSyncSize := 0\<rparr>) st2
         else (None, w\<lparr>toDelete := toDelete w @ [old], swapped := swapped w + 1,
                       curSyncSize := curSyncSize w + of_nat (length u)\<rparr>, st2))"
      by (rule conjI [OF swap_at_threshold(1) [OF g p] swap_at_threshold(2) [OF g p]])
  qed
next
  obtain out st' where e: "swapWorker_end False l st = (out, st')" by (rule prod.exhaust)
  obtain err w1 st1 where a: "swapWorker_syncAndDelete (sw l) st = (err, w1, st1)"
    by (rule prod_cases3)
  from finalSync_shape [OF a e] show "case swapWorker_end False l st of
      (out, st') \<Rightarrow>
        (case swapWorker_syncAndDelete (sw l) st of
           (err, w1, st1) \<Rightarrow>
             (\<exists>r. trace st' = trace st1 @ [(OpSync (syncPrefix (sw l)), r)] \<and>
                  kv st' = kv st1 \<and>
                  out = (swapped (sw l),
                         errored l + (if err = None then 0 else 1) +
                         (if r = None then 0 else 1))))"
    unfolding a e by (simp only: prod.case)
next
  show "swapWorker_end True l st = ((swapped (sw l), errored l), st)"
    by (simp add: swapWorker_end_def)
next
  show "faults st = noFaults \<and> map_of (kv st) old = Some v \<longrightarrow>
      (case swapWorker_swap cfg w st old new of
         (err, w', st') \<Rightarrow>
           err = None \<and>
           (if SyncSize cfg \<le> curSyncSize w + of_nat (length v)
            then curSyncSize w' = 0 \<and> toDelete w' = [] \<and>
                 trace st' = trace st @
                   map (\<lambda>op. (op, None))
                     ([OpGet old, OpPut new v, OpSync (syncPrefix w)] @
                      map OpDelete (toDelete w @ [old]))
            else curSyncSize w' = curSyncSize w + of_nat (length v) \<and>
                 toDelete w' = toDelete w @ [old] \<and>
                 trace st' = trace st @ [(OpGet old, None), (OpPut new v, None)]))"
    by (simp add: swapWorker_swap_def Get_ok Put_ok syncAndDelete_ok Let_def comp_def)
next
  show "faults st = noFaults \<longrightarrow>
      (case swapWorker_end False l st of
         (out, st') \<Rightarrow>
           out = (swapped (sw l), errored l) \<and>
           trace st' = trace st @
             map (\<lambda>op. (op, None))
               ([OpSync (syncPrefix (sw l))] @ map OpDelete (toDelete (sw l)) @
                [OpSync (syncPrefix (sw l))]))"
    by (simp add: syncAndDelete_ok swapWorker_end_def finalSync_def swapWorker_sync_def
        Sync_ok comp_def)
qed

theorem flush_steps_witness:
  "trace (snd (snd (swapWorker_swap \<lparr>SyncSize = 1, NWorkers = 4\<rparr>
       \<lparr>swapped = 0, curSyncSize = 0, syncPrefix = [''blocks''], toDelete = [[''blocks'', ''1bQx'']]\<rparr>
       (mkStore [([''blocks'', ''1aQx''], ''v'')] noFaults)
       [''blocks'', ''1aQx''] [''blocks'', ''Qx'']))) =
     [(OpGet [''blocks'', ''1aQx''], None), (OpPut [''blocks'', ''Qx''] ''v'', None),
      (OpSync [''blocks''], None), (OpDelete [''blocks'', ''1bQx''], None),
      (OpDelete [''blocks'', ''1aQx''], None)] \<and>
   trace (snd (swapWorker_end False
       \<lparr>sw = \<lparr>swapped = 0, curSyncSize = 0, syncPrefix = [''blocks''],
               toDelete = [[''blocks'', ''1bQx'']]\<rparr>, errored = 0\<rparr>
       (mkStore [([''blocks'', ''1aQx''], ''v'')] noFaults))) =
     [(OpSync [''blocks''], None), (OpDelete [''blocks'', ''1bQx''], None),
      (OpSync [''blocks''], None)] \<and>
   swapWorker_swap \<lparr>SyncSize = 1, NWorkers = 4\<rparr>
       \<lparr>swapped = 0, curSyncSize = 0, syncPrefix = [''blocks''], toDelete = [[''blocks'', ''1bQx'']]\<rparr>
       (mkStore [([''blocks'', ''1aQx''], ''v'')] (failOn (OpSync [''blocks'']) ioErr))
       [''blocks'', ''1aQx''] [''blocks'', ''Qx''] =
     (Some ioErr,
      \<lparr>swapped = 1, curSyncSize = 0, syncPrefix = [''blocks''],
        toDelete = [[''blocks'', ''1bQx''], [''blocks'', ''1aQx'']]\<rparr>,
      \<lparr>kv = [([''blocks'', ''1aQx''], ''v''), ([''blocks'', ''Qx''], ''v'')],
        faults = failOn (OpSync [''blocks'']) ioErr,
        trace = [(OpGet [''blocks'', ''1aQx''], None), (OpPut [''blocks'', ''Qx''] ''v'', None),
                 (OpSync [''blocks''], Some ioErr)]\<rparr>) \<and>
   swapWorker_end False
       \<lparr>sw = \<lparr>swapped = 0, curSyncSize = 0, syncPrefix = [''blocks''],
               toDelete = [[''blocks'', ''1bQx'']]\<rparr>, errored = 0\<rparr>
       (mkStore [([''blocks'', ''1aQx''], ''v'')] (failOn (OpSync [''blocks'']) ioErr)) =
     ((0, 2),
      \<lparr>kv = [([''blocks'', ''1aQx''], ''v'')], faults = failOn (OpSync [''blocks'']) ioErr,
        trace = [(OpSync [''blocks''], Some ioErr), (OpSync [''blocks''], Some ioErr)]\<rparr>) \<and>
   swapWorker_syncAndDelete
       \<lparr>swapped = 0, curSyncSize = 0, syncPrefix = [''blocks''],
         toDelete = [[''blocks'', ''1bQx''], [''blocks'', ''1aQx'']]\<rparr>
       (mkStore [([''blocks'', ''1aQx''], ''v'')] (failOn (OpDelete [''blocks'', ''1bQx'']) ioErr)) =
     (Some ioErr,
      \<lparr>swapped = 0, curSyncSize = 0, syncPrefix = [''blocks''],
        toDelete = [[''blocks'', ''1bQx''], [''blocks'', ''1aQx'']]\<rparr>,
      \<lparr>kv = [([''blocks'', ''1aQx''], ''v'')],
        faults = failOn (OpDelete [''blocks'', ''1bQx'']) ioErr,
        trace = [(OpSync [''blocks''], None), (OpDelete [''blocks'', ''1bQx''], Some ioErr)]\<rparr>)"
  using flush_steps [where st = "mkStore [([''blocks'', ''1aQx''], ''v'')] noFaults"
      and old = "[''blocks'', ''1aQx'']" and v = "''v''" and cfg = "\<lparr>SyncSize = 1, NWorkers = 4\<rparr>"
      and w = "\<lparr>swapped = 0, curSyncSize = 0, syncPrefix = [''blocks''],
                 toDelete = [[''blocks'', ''1bQx'']]\<rparr>"
      and new = "[''blocks'', ''Qx'']"
      and l = "\<lparr>sw = \<lparr>swapped = 0, curSyncSize = 0, syncPrefix = [''blocks''],
               toDelete = [[''blocks'', ''1bQx'']]\<rparr>, errored = 0\<rparr>"]
  by (simp add: run_defs swapWorker_end_def finalSync_def split: prod.splits)

subsection \<open>Every candidate key is attempted\<close>

lemma attempted_append: "attempted tr k \<Longrightarrow> attempted (tr @ ev) k"
  and attempted_append2: "attempted ev k \<Longrightarrow> attempted (tr @ ev) k"
  by (auto simp: attempted_def)

lemma swap_attempt:
  assumes "swapWorker_swap cfg w st old new = (r, w', st')"
  shows "\<exists>tr. trace st' = trace st @ tr \<and> attempted tr old"
proof -
  obtain g st1 where g: "Get st old = (g, st1)" by (rule prod.exhaust)
  from Get_trace [OF g] obtain e where e: "trace st1 = trace st @ [(OpGet old, e)]" by blast
  have a: "attempted [(OpGet old, e)] old" by (simp add: attempted_def)
  have "\<exists>tr2. trace st' = trace st1 @ tr2"
  proof (cases g)
    case (Inl err)
    with assms g have "st' = st1" by (simp add: swapWorker_swap_def)
    then show ?thesis by simp
  next
    case (Inr v)
    obtain pe st2 where pu: "Put st1 new v = (pe, st2)" by (rule prod.exhaust)
    note t2 = Put_trace [OF pu]
    show ?thesis
    proof (cases pe)
      case (Some err)
      with assms g Inr pu have "st' = st2" by (simp add: swapWorker_swap_def)
      with t2 show ?thesis by simp
    next
      case None
      let ?w1 = "w\<lparr>toDelete := toDelete w @ [old], swapped := swapped w + 1,
                    curSyncSize := 0\<rparr>"
      show ?thesis
      proof (cases "SyncSize cfg \<le> curSyncSize w + of_nat (length v)")
        case True
        with swap_at_threshold(2) [OF g [unfolded Inr] pu [unfolded None], of cfg w] assms
        have "swapWorker_syncAndDelete ?w1 st2 = (r, w', st')" by simp
        from syncAndDelete_touch [OF this, of "trace st2" "[]" UNIV]
        obtain tr3 where "trace st' = trace st2 @ tr3" by (auto simp: touchedIn_Nil)
        with t2 show ?thesis by simp
      next
        case False
        with swap_at_threshold(2) [OF g [unfolded Inr] pu [unfolded None], of cfg w] assms
        have "st' = st2" by simp
        with t2 show ?thesis by simp
      qed
    qed
  qed
  then obtain tr2 where "trace st' = trace st1 @ tr2" by blast
  with e have "trace st' = trace st @ ([(OpGet old, e)] @ tr2)" by simp
  moreover from a have "attempted ([(OpGet old, e)] @ tr2) old" by (rule attempted_append)
  ultimately show ?thesis by blast
qed

lemma swapWorker_body_attempt:
  assumes "swapWorker_body cd cfg cswap dryRun res (l, ch, st) = (l', ch', st')"
  shows "\<exists>tr. trace st' = trace st @ tr \<and>
           (\<not> dryRun \<and> candidate cd res \<longrightarrow> attempted tr (Key res))"
  using assms
proof (cases rule: swapWorker_body_cases)
  case (failed e)
  then show ?thesis by (simp add: candidate_def)
next
  case skip
  from newKeyOf_skip [OF skip(5)] skip(4) show ?thesis by (simp add: candidate_def)
next
  case (dry c)
  then show ?thesis by simp
next
  case (swap c err w')
  from swap_attempt [OF swap(5)] show ?thesis by blast
qed

lemma swapWorker_end_grows:
  assumes "swapWorker_end dryRun l st = (out, st')"
  shows "\<exists>tr. trace st' = trace st @ tr"
proof (cases dryRun)
  case True
  with assms show ?thesis by (simp add: swapWorker_end_def)
next
  case False
  with assms have "finalSync l st = (out, st')" by (simp add: swapWorker_end_def)
  from finalSync_touch [OF this, of "trace st" "[]" UNIV] show ?thesis
    by (auto simp: touchedIn_Nil)
qed

lemma workerStep_attempt:
  assumes "workerStep cd cfg cswap dryRun i (rs, ws, ch, st) = (rs', ws', ch', st')"
  shows "\<exists>tr dn. rs = dn @ rs' \<and> trace st' = trace st @ tr \<and>
           (\<not> dryRun \<longrightarrow> (\<forall>r \<in> set dn. candidate cd r \<longrightarrow> attempted tr (Key r)))"
  using assms
proof (cases rule: workerStep_cases)
  case idle
  then have "rs = [] @ rs' \<and> trace st' = trace st @ [] \<and>
      (\<not> dryRun \<longrightarrow> (\<forall>r \<in> set []. candidate cd r \<longrightarrow> attempted [] (Key r)))" by simp
  then show ?thesis by blast
next
  case (body l res rs1 l1 ch1 st1)
  from swapWorker_body_attempt [OF body(4)] obtain tr where
    "trace st1 = trace st @ tr" "\<not> dryRun \<and> candidate cd res \<longrightarrow> attempted tr (Key res)"
    by blast
  with body(3,5) have "rs = [res] @ rs' \<and> trace st' = trace st @ tr \<and>
      (\<not> dryRun \<longrightarrow> (\<forall>r \<in> set [res]. candidate cd r \<longrightarrow> attempted tr (Key r)))" by simp
  then show ?thesis by blast
next
  case (fin l out st1)
  from swapWorker_end_grows [OF fin(4)] obtain tr where "trace st1 = trace st @ tr" by blast
  with fin(3,5) have "rs = [] @ rs' \<and> trace st' = trace st @ tr \<and>
      (\<not> dryRun \<longrightarrow> (\<forall>r \<in> set []. candidate cd r \<longrightarrow> attempted tr (Key r)))" by simp
  then show ?thesis by blast
qed

lemma workerSteps_attempt:
  assumes "workerSteps cd cfg cswap dryRun sched (rs, ws, ch, st) = (rs', ws', ch', st')"
  shows "\<exists>tr dn. rs = dn @ rs' \<and> trace st' = trace st @ tr \<and>
           (\<not> dryRun \<longrightarrow> (\<forall>r \<in> set dn. candidate cd r \<longrightarrow> attempted tr (Key r)))"
  using assms
proof (induction sched arbitrary: rs ws ch st)
  case Nil
  then have "rs = [] @ rs' \<and> trace st' = trace st @ [] \<and>
      (\<not> dryRun \<longrightarrow> (\<forall>r \<in> set []. candidate cd r \<longrightarrow> attempted [] (Key r)))" by simp
  then show ?case by blast
next
  case (Cons i sched)
  obtain rs1 ws1 ch1 st1 where
    s1: "workerStep cd cfg cswap dryRun i (rs, ws, ch, st) = (rs1, ws1, ch1, st1)"
    by (rule prod_cases4)
  from workerStep_attempt [OF s1] obtain tr1 dn1 where
    a: "rs = dn1 @ rs1" "trace st1 = trace st @ tr1"
      "\<not> dryRun \<longrightarrow> (\<forall>r \<in> set dn1. candidate cd r \<longrightarrow> attempted tr1 (Key r))" by blast
  from Cons.prems s1
  have "workerSteps cd cfg cswap dryRun sched (rs1, ws1, ch1, st1) = (rs', ws', ch', st')"
    by simp
  from Cons.IH [OF this] obtain tr2 dn2 where
    b: "rs1 = dn2 @ rs'" "trace st' = trace st1 @ tr2"
      "\<not> dryRun \<longrightarrow> (\<forall>r \<in> set dn2. candidate cd r \<longrightarrow> attempted tr2 (Key r))" by blast
  have "\<not> dryRun \<longrightarrow> (\<forall>r \<in> set (dn1 @ dn2). candidate cd r \<longrightarrow> attempted (tr1 @ tr2) (Key r))"
    using a(3) b(3) attempted_append [of tr1 _ tr2] attempted_append2 [of tr2 _ tr1] by auto
  with a(1,2) b(1,2) have "rs = (dn1 @ dn2) @ rs' \<and> trace st' = trace st @ (tr1 @ tr2) \<and>
      (\<not> dryRun \<longrightarrow> (\<forall>r \<in> set (dn1 @ dn2). candidate cd r \<longrightarrow> attempted (tr1 @ tr2) (Key r)))"
    by simp
  then show ?case by blast
qed

lemma runPool_attempts:
  assumes "workerSteps cd cfg cswap dryRun (sched @ completion cfg results)
             (results, replicate (NWorkers cfg) (newLocals cswap, None), ch, st) =
           (rs', ws', ch', st')"
    and "NWorkers cfg \<noteq> 0" and "\<not> dryRun"
  shows "\<exists>tr. trace st' = trace st @ tr \<and>
           (\<forall>r \<in> set results. candidate cd r \<longrightarrow> attempted tr (Key r))"
proof -
  from runPool_drained [OF assms(1,2)] have "rs' = []" .
  with workerSteps_attempt [OF assms(1)] assms(3) show ?thesis by auto
qed

text \<open>In a dry run the workers count the candidate entries.\<close>

lemma dry_body_count:
  assumes "swapWorker_body cd cfg cswap True res (l, ch, st) = (l', ch', st')"
  shows "swapped (sw l') = swapped (sw l) + (if candidate cd res then 1 else 0)"
  using assms
proof (cases rule: swapWorker_body_cases)
  case (failed e)
  then show ?thesis by (simp add: candidate_def)
next
  case skip
  from newKeyOf_skip [OF skip(5)] skip(2) show ?thesis by (simp add: candidate_def)
next
  case (dry c)
  from newKeyOf_swap [OF dry(3,4)] dry(1,5) show ?thesis by (simp add: candidate_def)
next
  case (swap c err w')
  then show ?thesis by simp
qed

lemma dry_step_count:
  assumes "workerStep cd cfg cswap True i (rs, ws, ch, st) = (rs', ws', ch', st')"
  shows "sum_list (map swapCount ws') + of_nat (length (filter (candidate cd) rs')) =
         sum_list (map swapCount ws) + of_nat (length (filter (candidate cd) rs))"
  using assms
proof (cases rule: workerStep_cases)
  case idle
  then show ?thesis by simp
next
  case (body l res rs1 l1 ch1 st1)
  from dry_body_count [OF body(4)]
  have "swapCount (l1, None) = swapCount (ws ! i) + (if candidate cd res then 1 else 0)"
    by (simp add: swapCount_def body(2))
  moreover from sum_list_map_update [OF body(1), of swapCount "(l1, None)"] body(5)
  have "sum_list (map swapCount ws') + swapCount (ws ! i) =
        sum_list (map swapCount ws) + swapCount (l1, None)"
    by simp
  ultimately have "(sum_list (map swapCount ws') +
        of_nat (length (filter (candidate cd) rs'))) + swapCount (ws ! i) =
      (sum_list (map swapCount ws) + of_nat (length (filter (candidate cd) rs))) +
        swapCount (ws ! i)"
    using body(3,5) by (simp add: algebra_simps)
  then show ?thesis by simp
next
  case (fin l out st1)
  from fin(4) have "swapCount (l, Some out) = swapCount (ws ! i)"
    by (auto simp: swapCount_def fin(2) swapWorker_end_def)
  with sum_list_map_update [OF fin(1), of swapCount "(l, Some out)"] fin(3,5)
  show ?thesis by simp
qed

lemma dry_steps_count:
  assumes "workerSteps cd cfg cswap True sched (rs, ws, ch, st) = (rs', ws', ch', st')"
  shows "sum_list (map swapCount ws') + of_nat (length (filter (candidate cd) rs')) =
         sum_list (map swapCount ws) + of_nat (length (filter (candidate cd) rs))"
  using assms
proof (induction sched arbitrary: rs ws ch st)
  case Nil
  then show ?case by simp
next
  case (Cons i sched)
  obtain rs1 ws1 ch1 st1 where
    s1: "workerStep cd cfg cswap True i (rs, ws, ch, st) = (rs1, ws1, ch1, st1)"
    by (rule prod_cases4)
  with Cons.prems
  have "workerSteps cd cfg cswap True sched (rs1, ws1, ch1, st1) = (rs', ws', ch', st')"
    by simp
  from Cons.IH [OF this] dry_step_count [OF s1] show ?case by simp
qed

lemma dry_run_count:
  assumes s: "workerSteps cd cfg cswap True (sched @ completion cfg results)
             (results, replicate (NWorkers cfg) (newLocals cswap, None), ch, st) =
           (rs', ws', ch', st')"
    and n: "NWorkers cfg \<noteq> 0"
  shows "sum_list (map fst (returned ws')) = of_nat (length (filter (candidate cd) results))"
proof -
  from runPool_all_returned [OF s] have fin: "\<forall>w \<in> set ws'. snd w \<noteq> None" by simp
  from runPool_drained [OF s n] have rs: "rs' = []" .
  have "sum_list (map swapCount (replicate (NWorkers cfg)
      (newLocals cswap, None :: (64 word \<times> 64 word) option))) = 0"
    by (simp add: sum_list_replicate swapCount_def newLocals_def)
  with dry_steps_count [OF s] returned_swapCount [OF fin] rs show ?thesis by simp
qed

subsection \<open>What \<^verbatim>\<open>Run\<close> returns (C6)\<close>

lemma returned_all:
  "\<forall>w \<in> set ws. snd w \<noteq> None \<Longrightarrow> map snd ws = map Some (returned ws)"
  by (induction ws) (auto simp: returned_def)

text \<open>
  C6, as stated, fails in one direction: \<^verbatim>\<open>Run\<close> also returns an error when the query
  cannot be started, and then no worker has run, so none has recorded an error. On a
  store whose query of \<open>blocks\<close> fails, \<^verbatim>\<open>Run\<close> returns 0 and the query's error, and the
  list of worker results is empty.
\<close>

theorem Run_error_without_worker_error_counterexample:
  "CidSwapper_Run exCodec defaultConfig exSwapper False []
     ([], mkStore [([''blocks'', ''1aQx''], ''v'')] (failOn (OpQuery [''blocks'']) ioErr)) =
   ((0, Some ioErr), [],
    \<lparr>kv = [([''blocks'', ''1aQx''], ''v'')], faults = failOn (OpQuery [''blocks'']) ioErr,
      trace = [(OpQuery [''blocks''], Some ioErr)]\<rparr>) \<and>
   workerOutputs exCodec defaultConfig exSwapper False []
     ([], mkStore [([''blocks'', ''1aQx''], ''v'')] (failOn (OpQuery [''blocks'']) ioErr)) = []"
  by (simp add: CidSwapper_Run_def workerOutputs_def Query_def failure_def failOn_def
      emit_def mkStore_def exSwapper_def)

text \<open>
  C6, amended, for every fault plan, schedule and configuration. When the query fails,
  \<^verbatim>\<open>Run\<close> returns 0 and the query's error and no worker runs. When the query succeeds,
  whatever entries it streams (keys or errors): every one of the \<open>NWorkers\<close> workers
  returns (the pair counted for a worker is the pair it returned), with at least one
  worker no result is left on the channel, and in a real run every entry that is a key
  of version 1 or more has had its Get issued after the query, whatever errors were
  counted before it, so no error ends a worker or the run early. \<^verbatim>\<open>Run\<close> returns the sum
  (modulo \<open>2^64\<close>) of the workers' swap counts, with the records sent and the store as the
  workers left them; its error is nil or the one "errors happened" error, and, when the
  results and two final syncs per worker are fewer than \<open>2^64\<close> (so that the error total
  cannot wrap around), it is non-nil if and only if some worker returned a positive
  error count. In a real run the count returned is the number of puts that succeeded
  during the run (modulo \<open>2^64\<close>), whether or not errors were counted; in a dry run
  with at least one worker it is the number of entries that are keys of version 1 or
  more (modulo \<open>2^64\<close>), whatever error entries the stream carries.
\<close>

theorem Run_result:
  "(case Query st (Prefix cswap) of
      (Inl err, st1) \<Rightarrow>
        CidSwapper_Run cd cfg cswap dryRun sched (ch, st) = ((0, Some err), ch, st1) \<and>
        workerOutputs cd cfg cswap dryRun sched (ch, st) = []
    | (Inr results, st1) \<Rightarrow>
        (case workerSteps cd cfg cswap dryRun (sched @ completion cfg results)
                (results, replicate (NWorkers cfg) (newLocals cswap, None), ch, st1) of
           (rs, ws, ch', st2) \<Rightarrow>
             length ws = NWorkers cfg \<and>
             map snd ws = map Some (workerOutputs cd cfg cswap dryRun sched (ch, st)) \<and>
             (NWorkers cfg \<noteq> 0 \<longrightarrow> rs = []) \<and>
             (\<exists>tr. trace st2 = trace st1 @ tr \<and>
                   (\<not> dryRun \<and> NWorkers cfg \<noteq> 0 \<longrightarrow>
                      (\<forall>r \<in> set results. candidate cd r \<longrightarrow> attempted tr (Key r)))) \<and>
             (\<exists>err. CidSwapper_Run cd cfg cswap dryRun sched (ch, st) =
                      ((sum_list (map fst (workerOutputs cd cfg cswap dryRun sched (ch, st))),
                        err), ch', st2) \<and>
                    (err = None \<or> err = Some migrationError) \<and>
                    (length results + 2 * NWorkers cfg < 2 ^ 64 \<longrightarrow>
                       (err \<noteq> None \<longleftrightarrow>
                        (\<exists>out \<in> set (workerOutputs cd cfg cswap dryRun sched (ch, st)).
                           snd out \<noteq> 0)))) \<and>
             (\<not> dryRun \<longrightarrow>
                sum_list (map fst (workerOutputs cd cfg cswap dryRun sched (ch, st))) +
                  of_nat (successfulPuts st) =
                of_nat (successfulPuts st2)) \<and>
             (dryRun \<and> NWorkers cfg \<noteq> 0 \<longrightarrow>
                sum_list (map fst (workerOutputs cd cfg cswap dryRun sched (ch, st))) =
                of_nat (length (filter (candidate cd) results)))))"
proof -
  obtain q st1 where q: "Query st (Prefix cswap) = (q, st1)" by (rule prod.exhaust)
  show ?thesis
  proof (cases q)
    case (Inl err)
    with q show ?thesis by (simp add: CidSwapper_Run_def workerOutputs_def)
  next
    case (Inr results)
    obtain rs ws ch' st2 where
      ws: "workerSteps cd cfg cswap dryRun (sched @ completion cfg results)
             (results, replicate (NWorkers cfg) (newLocals cswap, None), ch, st1) =
           (rs, ws, ch', st2)"
      by (rule prod_cases4)
    define outs where "outs = returned ws"
    have p: "runPool cd cfg cswap dryRun sched results (ch, st1) = (outs, ch', st2)"
      by (simp add: runPool_def ws outs_def)
    have wo: "workerOutputs cd cfg cswap dryRun sched (ch, st) = outs"
      using q Inr p by (simp add: workerOutputs_def)
    note b = runPool_errors_bounded [OF p]
    note r = runPool_all_returned [OF ws]
    have c1: "length ws = NWorkers cfg" using r by simp
    have c2: "map snd ws = map Some outs"
      unfolding outs_def using r by (intro returned_all) simp
    have c3: "NWorkers cfg \<noteq> 0 \<longrightarrow> rs = []"
      using runPool_drained [OF ws] by simp
    from workerSteps_attempt [OF ws] obtain tr dn where
      t: "results = dn @ rs" "trace st2 = trace st1 @ tr"
        "\<not> dryRun \<longrightarrow> (\<forall>r \<in> set dn. candidate cd r \<longrightarrow> attempted tr (Key r))" by blast
    with c3 have "trace st2 = trace st1 @ tr \<and>
        (\<not> dryRun \<and> NWorkers cfg \<noteq> 0 \<longrightarrow>
           (\<forall>r \<in> set results. candidate cd r \<longrightarrow> attempted tr (Key r)))" by simp
    then have c4: "\<exists>tr. trace st2 = trace st1 @ tr \<and>
        (\<not> dryRun \<and> NWorkers cfg \<noteq> 0 \<longrightarrow>
           (\<forall>r \<in> set results. candidate cd r \<longrightarrow> attempted tr (Key r)))" by blast
    have run: "CidSwapper_Run cd cfg cswap dryRun sched (ch, st) =
        ((sum_list (map fst outs), snd (CidSwapper_runWorkers outs)), ch', st2)"
      using q Inr p by (simp add: CidSwapper_Run_def CidSwapper_runWorkers_def Let_def)
    have two: "snd (CidSwapper_runWorkers outs) = None \<or>
        snd (CidSwapper_runWorkers outs) = Some migrationError"
      by (simp add: CidSwapper_runWorkers_def Let_def)
    have iff: "length results + 2 * NWorkers cfg < 2 ^ 64 \<longrightarrow>
        (snd (CidSwapper_runWorkers outs) \<noteq> None \<longleftrightarrow> (\<exists>out \<in> set outs. snd out \<noteq> 0))"
    proof
      assume "length results + 2 * NWorkers cfg < 2 ^ 64"
      with b(2) show "snd (CidSwapper_runWorkers outs) \<noteq> None \<longleftrightarrow>
          (\<exists>out \<in> set outs. snd out \<noteq> 0)"
        by (intro runWorkers_error_iff) simp
    qed
    have c5: "\<exists>err. CidSwapper_Run cd cfg cswap dryRun sched (ch, st) =
                      ((sum_list (map fst outs), err), ch', st2) \<and>
                    (err = None \<or> err = Some migrationError) \<and>
                    (length results + 2 * NWorkers cfg < 2 ^ 64 \<longrightarrow>
                       (err \<noteq> None \<longleftrightarrow> (\<exists>out \<in> set outs. snd out \<noteq> 0)))"
      using run two iff by blast
    have c6: "\<not> dryRun \<longrightarrow>
        sum_list (map fst outs) + of_nat (successfulPuts st) = of_nat (successfulPuts st2)"
    proof
      assume "\<not> dryRun"
      with p have "runPool cd cfg cswap False sched results (ch, st1) = (outs, ch', st2)"
        by simp
      from runPool_counts_puts [OF this] successfulPuts_Query [OF q] show
        "sum_list (map fst outs) + of_nat (successfulPuts st) = of_nat (successfulPuts st2)"
        by simp
    qed
    have c7: "dryRun \<and> NWorkers cfg \<noteq> 0 \<longrightarrow>
        sum_list (map fst outs) = of_nat (length (filter (candidate cd) results))"
    proof
      assume a: "dryRun \<and> NWorkers cfg \<noteq> 0"
      with ws have "workerSteps cd cfg cswap True (sched @ completion cfg results)
             (results, replicate (NWorkers cfg) (newLocals cswap, None), ch, st1) =
           (rs, ws, ch', st2)" by simp
      from dry_run_count [OF this] a show
        "sum_list (map fst outs) = of_nat (length (filter (candidate cd) results))"
        by (simp add: outs_def)
    qed
    show ?thesis
      unfolding q Inr sum.case prod.case ws wo
      by (intro conjI c1 c2 c3 c4 c5 c6 c7)
  qed
qed

theorem Run_result_witness:
  "CidSwapper_Run exCodec \<lparr>SyncSize = 1, NWorkers = Suc 0\<rparr> exSwapper False []
     ([], mkStore [([''blocks'', ''1aQx''], ''v''), ([''blocks'', ''1bQy''], ''w'')]
            (failOn (OpGet [''blocks'', ''1aQx'']) ioErr)) =
   ((1, Some migrationError),
    [\<lparr>Old = [''blocks'', ''1bQy''], New = [''blocks'', ''Qy'']\<rparr>],
    \<lparr>kv = [([''blocks'', ''1aQx''], ''v''), ([''blocks'', ''Qy''], ''w'')],
      faults = failOn (OpGet [''blocks'', ''1aQx'']) ioErr,
      trace = [(OpQuery [''blocks''], None), (OpGet [''blocks'', ''1aQx''], Some ioErr),
               (OpGet [''blocks'', ''1bQy''], None), (OpPut [''blocks'', ''Qy''] ''w'', None),
               (OpSync [''blocks''], None), (OpDelete [''blocks'', ''1bQy''], None),
               (OpSync [''blocks''], None), (OpSync [''blocks''], None)]\<rparr>) \<and>
   workerOutputs exCodec \<lparr>SyncSize = 1, NWorkers = Suc 0\<rparr> exSwapper False []
     ([], mkStore [([''blocks'', ''1aQx''], ''v''), ([''blocks'', ''1bQy''], ''w'')]
            (failOn (OpGet [''blocks'', ''1aQx'']) ioErr)) = [(1, 1)] \<and>
   CidSwapper_Run exCodec \<lparr>SyncSize = 1, NWorkers = Suc 0\<rparr> exSwapper False []
     ([], mkStore [([''blocks'', ''1aQx''], ''v''), ([''blocks'', ''1bQy''], ''w'')]
            (failOn (OpNext [''blocks'', ''1aQx'']) ioErr)) =
   ((1, Some migrationError),
    [\<lparr>Old = [''blocks'', ''1bQy''], New = [''blocks'', ''Qy'']\<rparr>],
    \<lparr>kv = [([''blocks'', ''1aQx''], ''v''), ([''blocks'', ''Qy''], ''w'')],
      faults = failOn (OpNext [''blocks'', ''1aQx'']) ioErr,
      trace = [(OpQuery [''blocks''], None),
               (OpGet [''blocks'', ''1bQy''], None), (OpPut [''blocks'', ''Qy''] ''w'', None),
               (OpSync [''blocks''], None), (OpDelete [''blocks'', ''1bQy''], None),
               (OpSync [''blocks''], None), (OpSync [''blocks''], None)]\<rparr>)"
proof -
  let ?cfg = "\<lparr>SyncSize = 1, NWorkers = Suc 0\<rparr>"
  let ?al = "[([''blocks'', ''1aQx''], ''v''), ([''blocks'', ''1bQy''], ''w'')]"
  let ?al2 = "[([''blocks'', ''1aQx''], ''v''), ([''blocks'', ''Qy''], ''w'')]"
  let ?f = "failOn (OpGet [''blocks'', ''1aQx'']) ioErr"
  let ?g = "failOn (OpNext [''blocks'', ''1aQx'']) ioErr"
  let ?rs = "[\<lparr>Key = [''blocks'', ''1aQx''], Error = None\<rparr>,
              \<lparr>Key = [''blocks'', ''1bQy''], Error = None\<rparr>]"
  let ?rs2 = "[\<lparr>Key = [], Error = Some ioErr\<rparr>,
               \<lparr>Key = [''blocks'', ''1bQy''], Error = None\<rparr>]"
  let ?tr = "[(OpQuery [''blocks''], None), (OpGet [''blocks'', ''1aQx''], Some ioErr),
               (OpGet [''blocks'', ''1bQy''], None), (OpPut [''blocks'', ''Qy''] ''w'', None),
               (OpSync [''blocks''], None), (OpDelete [''blocks'', ''1bQy''], None),
               (OpSync [''blocks''], None), (OpSync [''blocks''], None)]"
  let ?tr2 = "[(OpQuery [''blocks''], None),
               (OpGet [''blocks'', ''1bQy''], None), (OpPut [''blocks'', ''Qy''] ''w'', None),
               (OpSync [''blocks''], None), (OpDelete [''blocks'', ''1bQy''], None),
               (OpSync [''blocks''], None), (OpSync [''blocks''], None)]"
  have v1b: "dsKeyToCid exCodec (NewKey (BaseNamespace [''blocks'', ''1bQy''])) =
      Inr (Cid 1 98 ''Qy'')"
    by (simp add: exCodec_defs exCodec_def exBinaryFromDsKey_def exCast_def)
  have q: "Query (mkStore ?al ?f) (Prefix exSwapper) =
      (Inr ?rs, \<lparr>kv = ?al, faults = ?f, trace = [(OpQuery [''blocks''], None)]\<rparr>)"
    by (simp add: Query_def entry_def failure_def failOn_def emit_def mkStore_def exSwapper_def)
  have p: "workerSteps exCodec ?cfg exSwapper False ([] @ completion ?cfg ?rs)
      (?rs, replicate (NWorkers ?cfg) (newLocals exSwapper, None), [],
       \<lparr>kv = ?al, faults = ?f, trace = [(OpQuery [''blocks''], None)]\<rparr>) =
      ([], [(\<lparr>sw = \<lparr>swapped = 1, curSyncSize = 0, syncPrefix = [''blocks''], toDelete = []\<rparr>,
               errored = 1\<rparr>, Some (1, 1))],
       [\<lparr>Old = [''blocks'', ''1bQy''], New = [''blocks'', ''Qy'']\<rparr>],
       \<lparr>kv = ?al2, faults = ?f, trace = ?tr\<rparr>)"
    by (simp add: run_defs completion_def workerStep_def swapWorker_body_def
        swapWorker_end_def finalSync_def exCodec_v1a v1b exCodec_mh
        Parent_def Child_def upt_rec)
  have q2: "Query (mkStore ?al ?g) (Prefix exSwapper) =
      (Inr ?rs2, \<lparr>kv = ?al, faults = ?g, trace = [(OpQuery [''blocks''], None)]\<rparr>)"
    by (simp add: Query_def entry_def failure_def failOn_def emit_def mkStore_def exSwapper_def)
  have p2: "runPool exCodec ?cfg exSwapper False [] ?rs2
      ([], \<lparr>kv = ?al, faults = ?g, trace = [(OpQuery [''blocks''], None)]\<rparr>) =
      ([(1, 1)], [\<lparr>Old = [''blocks'', ''1bQy''], New = [''blocks'', ''Qy'']\<rparr>],
       \<lparr>kv = ?al2, faults = ?g, trace = ?tr2\<rparr>)"
    by (simp add: run_defs runPool_def completion_def workerStep_def swapWorker_body_def
        swapWorker_end_def finalSync_def returned_def v1b exCodec_mh
        Parent_def Child_def upt_rec)
  have r2: "CidSwapper_Run exCodec ?cfg exSwapper False [] ([], mkStore ?al ?g) =
      ((1, Some migrationError), [\<lparr>Old = [''blocks'', ''1bQy''], New = [''blocks'', ''Qy'']\<rparr>],
       \<lparr>kv = ?al2, faults = ?g, trace = ?tr2\<rparr>)"
    by (simp add: CidSwapper_Run_def q2 p2 CidSwapper_runWorkers_def)
  have wo: "workerOutputs exCodec ?cfg exSwapper False [] ([], mkStore ?al ?f) = [(1, 1)]"
    unfolding workerOutputs_def prod.case q sum.case runPool_def p
    by (simp add: returned_def)
  note R = Run_result [where cd = exCodec and cfg = ?cfg and cswap = exSwapper
      and dryRun = False and sched = "[]" and ch = "[]" and st = "mkStore ?al ?f"]
  from R [unfolded q sum.case prod.case p wo]
  have "CidSwapper_Run exCodec ?cfg exSwapper False [] ([], mkStore ?al ?f) =
      ((1, Some migrationError), [\<lparr>Old = [''blocks'', ''1bQy''], New = [''blocks'', ''Qy'']\<rparr>],
       \<lparr>kv = ?al2, faults = ?f, trace = ?tr\<rparr>) \<and>
    workerOutputs exCodec ?cfg exSwapper False [] ([], mkStore ?al ?f) = [(1, 1)]"
    by (auto simp: wo)
  with r2 show ?thesis by simp
qed

subsection \<open>A run and its reversal on a store whose operations do not fail\<close>

lemma Query_ok:
  "faults st = noFaults \<Longrightarrow>
   Query st p =
     (Inr (map (\<lambda>k. \<lparr>Key = k, Error = None\<rparr>) (filter (prefix p) (map fst (kv st)))),
      emit st (OpQuery p) None)"
  by (simp add: Query_def entry_def cong: map_cong)

lemma runWorkers_ok:
  assumes "\<forall>out \<in> set outs. snd out = 0"
  shows "CidSwapper_runWorkers outs = (sum_list (map fst outs), None)"
proof -
  from assms have "sum_list (map snd outs) = 0" by (induction outs) auto
  then show ?thesis by (simp add: CidSwapper_runWorkers_def)
qed

lemma workerSteps_no_workers:
  "workerSteps cd cfg cswap dryRun sched (rs, [], ch, st) = (rs, [], ch, st)"
  by (induction sched) (simp_all add: workerStep_def)

lemma runPool_touch:
  assumes run: "runPool cd cfg cswap dryRun sched results (ch, st) = (outs, ch', st')"
    and "trace st = tr0 @ tr" and "touchedIn A tr"
    and "\<forall>r \<in> set results. \<forall>c. newKeyOf cd (Key r) = Some c \<longrightarrow> Key r \<in> A \<and> c \<in> A"
  shows "\<exists>tr'. trace st' = tr0 @ tr' \<and> touchedIn A tr'"
proof -
  obtain rs1 ws1 ch1 st1 where
    s: "workerSteps cd cfg cswap dryRun (sched @ completion cfg results)
          (results, replicate (NWorkers cfg) (newLocals cswap, None), ch, st) =
        (rs1, ws1, ch1, st1)"
    by (rule prod_cases4)
  with run have st: "st' = st1" by (simp add: runPool_def)
  have "\<forall>w \<in> set (replicate (NWorkers cfg)
            (newLocals cswap, None :: (64 word \<times> 64 word) option)).
          set (toDelete (sw (fst w))) \<subseteq> A"
    by (simp add: newLocals_def)
  from workerSteps_touch [OF s assms(2,3) this assms(4)] st show ?thesis by simp
qed

lemma unswapWorker_touch:
  assumes run: "CidSwapper_unswapWorker cfg cswap recs (ch, st) = (out, ch', st')"
    and "trace st = tr0 @ tr" and "touchedIn A tr"
    and "\<forall>rec \<in> set recs. Old rec \<in> A \<and> New rec \<in> A"
  shows "\<exists>tr'. trace st' = tr0 @ tr' \<and> touchedIn A tr'"
proof -
  obtain l m ch1 st1 where
    lp: "unswapWorker_loop cfg cswap recs (newLocals cswap, Map.empty, ch, st) = (l, m, ch1, st1)"
    by (rule prod_cases4)
  have "set (toDelete (sw (newLocals cswap))) \<subseteq> A" and "ran (Map.empty :: key \<rightharpoonup> key) \<subseteq> A"
    by (simp_all add: newLocals_def)
  from unswapWorker_loop_touch [OF lp assms(2,3) this assms(4)] obtain tr1 where
    t: "trace st1 = tr0 @ tr1" "touchedIn A tr1" "set (toDelete (sw l)) \<subseteq> A" by blast
  obtain out1 st2 where fs: "finalSync l st1 = (out1, st2)" by (rule prod.exhaust)
  from run lp fs have "st' = st2" by (simp add: CidSwapper_unswapWorker_def)
  with finalSync_touch [OF fs t] show ?thesis by simp
qed

subsection \<open>The round trip (C1)\<close>

lemma defaultConfig_workers:
  "defaultConfig = \<lparr>SyncSize = 20971520, NWorkers = Suc (Suc (Suc (Suc 0)))\<rparr>"
  by (simp add: defaultConfig_def)

lemma exCodec_v0x:
  "dsKeyToCid exCodec (NewKey (BaseNamespace [''blocks'', ''Qx''])) = Inr (Cid 0 112 ''Qx'')"
  by (simp add: exCodec_defs exCodec_def exBinaryFromDsKey_def exCast_def)

text \<open>
  C1, as stated, fails. On the store that holds the version-1 key \<open>blocks/1aQx\<close> and the
  version-0 key \<open>blocks/Qx\<close> of the same multihash, both with the value \<open>v\<close>, the run puts
  \<open>v\<close> under \<open>blocks/Qx\<close> (the version-0 key is rewritten) and the reversal reads and
  deletes \<open>blocks/Qx\<close>: the store is left with \<open>blocks/1aQx\<close> alone. On the store that holds
  the version-1 keys \<open>blocks/1aQx\<close> with \<open>v\<close> and \<open>blocks/1bQx\<close> with \<open>w\<close>, which have the
  same multihash, run and reversal leave \<open>w\<close> under both keys. Both runs and both
  reversals return no error. Each reversal starts from the store its run left and is
  given the records that run sent.
\<close>

theorem round_trip_counterexample:
  "dsKeyToCid exCodec (NewKey (BaseNamespace [''blocks'', ''1aQx''])) = Inr (Cid 1 97 ''Qx'') \<and>
   dsKeyToCid exCodec (NewKey (BaseNamespace [''blocks'', ''1bQx''])) = Inr (Cid 1 98 ''Qx'') \<and>
   dsKeyToCid exCodec (NewKey (BaseNamespace [''blocks'', ''Qx''])) = Inr (Cid 0 112 ''Qx'') \<and>
   CidSwapper_Run exCodec defaultConfig exSwapper False []
     ([], mkStore [([''blocks'', ''1aQx''], ''v''), ([''blocks'', ''Qx''], ''v'')] noFaults) =
   ((1, None), [\<lparr>Old = [''blocks'', ''1aQx''], New = [''blocks'', ''Qx'']\<rparr>],
    \<lparr>kv = [([''blocks'', ''Qx''], ''v'')], faults = noFaults,
      trace =
        [(OpQuery [''blocks''], None), (OpGet [''blocks'', ''1aQx''], None),
         (OpPut [''blocks'', ''Qx''] ''v'', None), (OpSync [''blocks''], None),
         (OpDelete [''blocks'', ''1aQx''], None),
         (OpSync [''blocks''], None), (OpSync [''blocks''], None),
         (OpSync [''blocks''], None), (OpSync [''blocks''], None),
         (OpSync [''blocks''], None), (OpSync [''blocks''], None),
         (OpSync [''blocks''], None)]\<rparr>) \<and>
   CidSwapper_Revert defaultConfig \<lparr>Prefix = [], SwapCh = False\<rparr>
     [\<lparr>Old = [''blocks'', ''1aQx''], New = [''blocks'', ''Qx'']\<rparr>]
     ([], \<lparr>kv = [([''blocks'', ''Qx''], ''v'')], faults = noFaults,
           trace =
        [(OpQuery [''blocks''], None), (OpGet [''blocks'', ''1aQx''], None),
         (OpPut [''blocks'', ''Qx''] ''v'', None), (OpSync [''blocks''], None),
         (OpDelete [''blocks'', ''1aQx''], None),
         (OpSync [''blocks''], None), (OpSync [''blocks''], None),
         (OpSync [''blocks''], None), (OpSync [''blocks''], None),
         (OpSync [''blocks''], None), (OpSync [''blocks''], None),
         (OpSync [''blocks''], None)]\<rparr>) =
   ((1, None), [],
    \<lparr>kv = [([''blocks'', ''1aQx''], ''v'')], faults = noFaults,
      trace =
        [(OpQuery [''blocks''], None), (OpGet [''blocks'', ''1aQx''], None),
         (OpPut [''blocks'', ''Qx''] ''v'', None), (OpSync [''blocks''], None),
         (OpDelete [''blocks'', ''1aQx''], None),
         (OpSync [''blocks''], None), (OpSync [''blocks''], None),
         (OpSync [''blocks''], None), (OpSync [''blocks''], None),
         (OpSync [''blocks''], None), (OpSync [''blocks''], None),
         (OpSync [''blocks''], None)] @
        [(OpGet [''blocks'', ''Qx''], None), (OpPut [''blocks'', ''1aQx''] ''v'', None),
         (OpSync [], None), (OpDelete [''blocks'', ''Qx''], None), (OpSync [], None)]\<rparr>) \<and>
   CidSwapper_Run exCodec defaultConfig exSwapper False []
     ([], mkStore [([''blocks'', ''1aQx''], ''v''), ([''blocks'', ''1bQx''], ''w'')] noFaults) =
   ((2, None),
    [\<lparr>Old = [''blocks'', ''1aQx''], New = [''blocks'', ''Qx'']\<rparr>,
     \<lparr>Old = [''blocks'', ''1bQx''], New = [''blocks'', ''Qx'']\<rparr>],
    \<lparr>kv = [([''blocks'', ''Qx''], ''w'')], faults = noFaults,
      trace =
        [(OpQuery [''blocks''], None), (OpGet [''blocks'', ''1aQx''], None),
         (OpPut [''blocks'', ''Qx''] ''v'', None), (OpGet [''blocks'', ''1bQx''], None),
         (OpPut [''blocks'', ''Qx''] ''w'', None), (OpSync [''blocks''], None),
         (OpDelete [''blocks'', ''1aQx''], None), (OpDelete [''blocks'', ''1bQx''], None),
         (OpSync [''blocks''], None), (OpSync [''blocks''], None),
         (OpSync [''blocks''], None), (OpSync [''blocks''], None),
         (OpSync [''blocks''], None), (OpSync [''blocks''], None),
         (OpSync [''blocks''], None)]\<rparr>) \<and>
   CidSwapper_Revert defaultConfig \<lparr>Prefix = [], SwapCh = False\<rparr>
     [\<lparr>Old = [''blocks'', ''1aQx''], New = [''blocks'', ''Qx'']\<rparr>,
      \<lparr>Old = [''blocks'', ''1bQx''], New = [''blocks'', ''Qx'']\<rparr>]
     ([], \<lparr>kv = [([''blocks'', ''Qx''], ''w'')], faults = noFaults,
           trace =
        [(OpQuery [''blocks''], None), (OpGet [''blocks'', ''1aQx''], None),
         (OpPut [''blocks'', ''Qx''] ''v'', None), (OpGet [''blocks'', ''1bQx''], None),
         (OpPut [''blocks'', ''Qx''] ''w'', None), (OpSync [''blocks''], None),
         (OpDelete [''blocks'', ''1aQx''], None), (OpDelete [''blocks'', ''1bQx''], None),
         (OpSync [''blocks''], None), (OpSync [''blocks''], None),
         (OpSync [''blocks''], None), (OpSync [''blocks''], None),
         (OpSync [''blocks''], None), (OpSync [''blocks''], None),
         (OpSync [''blocks''], None)]\<rparr>) =
   ((2, None), [],
    \<lparr>kv = [([''blocks'', ''1aQx''], ''w''), ([''blocks'', ''1bQx''], ''w'')],
      faults = noFaults,
      trace =
        [(OpQuery [''blocks''], None), (OpGet [''blocks'', ''1aQx''], None),
         (OpPut [''blocks'', ''Qx''] ''v'', None), (OpGet [''blocks'', ''1bQx''], None),
         (OpPut [''blocks'', ''Qx''] ''w'', None), (OpSync [''blocks''], None),
         (OpDelete [''blocks'', ''1aQx''], None), (OpDelete [''blocks'', ''1bQx''], None),
         (OpSync [''blocks''], None), (OpSync [''blocks''], None),
         (OpSync [''blocks''], None), (OpSync [''blocks''], None),
         (OpSync [''blocks''], None), (OpSync [''blocks''], None),
         (OpSync [''blocks''], None)] @
        [(OpGet [''blocks'', ''Qx''], None), (OpPut [''blocks'', ''1aQx''] ''w'', None),
         (OpGet [''blocks'', ''Qx''], None), (OpPut [''blocks'', ''1bQx''] ''w'', None),
         (OpSync [], None), (OpDelete [''blocks'', ''Qx''], None),
         (OpDelete [''blocks'', ''Qx''], None), (OpSync [], None)]\<rparr>)"
proof (intro conjI)
  show "CidSwapper_Run exCodec defaultConfig exSwapper False []
     ([], mkStore [([''blocks'', ''1aQx''], ''v''), ([''blocks'', ''Qx''], ''v'')] noFaults) =
   ((1, None), [\<lparr>Old = [''blocks'', ''1aQx''], New = [''blocks'', ''Qx'']\<rparr>],
    \<lparr>kv = [([''blocks'', ''Qx''], ''v'')], faults = noFaults,
      trace =
        [(OpQuery [''blocks''], None), (OpGet [''blocks'', ''1aQx''], None),
         (OpPut [''blocks'', ''Qx''] ''v'', None), (OpSync [''blocks''], None),
         (OpDelete [''blocks'', ''1aQx''], None),
         (OpSync [''blocks''], None), (OpSync [''blocks''], None),
         (OpSync [''blocks''], None), (OpSync [''blocks''], None),
         (OpSync [''blocks''], None), (OpSync [''blocks''], None),
         (OpSync [''blocks''], None)]\<rparr>)"
    by (simp add: defaultConfig_workers CidSwapper_Run_def Query_def entry_def
        CidSwapper_runWorkers_def run_defs runPool_def completion_def workerStep_def
        swapWorker_body_def swapWorker_end_def finalSync_def returned_def exCodec_v1a
        exCodec_v0x exCodec_mh Parent_def Child_def upt_rec word_le_nat_alt)
  show "CidSwapper_Run exCodec defaultConfig exSwapper False []
     ([], mkStore [([''blocks'', ''1aQx''], ''v''), ([''blocks'', ''1bQx''], ''w'')] noFaults) =
   ((2, None),
    [\<lparr>Old = [''blocks'', ''1aQx''], New = [''blocks'', ''Qx'']\<rparr>,
     \<lparr>Old = [''blocks'', ''1bQx''], New = [''blocks'', ''Qx'']\<rparr>],
    \<lparr>kv = [([''blocks'', ''Qx''], ''w'')], faults = noFaults,
      trace =
        [(OpQuery [''blocks''], None), (OpGet [''blocks'', ''1aQx''], None),
         (OpPut [''blocks'', ''Qx''] ''v'', None), (OpGet [''blocks'', ''1bQx''], None),
         (OpPut [''blocks'', ''Qx''] ''w'', None), (OpSync [''blocks''], None),
         (OpDelete [''blocks'', ''1aQx''], None), (OpDelete [''blocks'', ''1bQx''], None),
         (OpSync [''blocks''], None), (OpSync [''blocks''], None),
         (OpSync [''blocks''], None), (OpSync [''blocks''], None),
         (OpSync [''blocks''], None), (OpSync [''blocks''], None),
         (OpSync [''blocks''], None)]\<rparr>)"
    by (simp add: defaultConfig_workers CidSwapper_Run_def Query_def entry_def
        CidSwapper_runWorkers_def run_defs runPool_def completion_def workerStep_def
        swapWorker_body_def swapWorker_end_def finalSync_def returned_def exCodec_v1a
        exCodec_v1b exCodec_mh Parent_def Child_def upt_rec word_le_nat_alt)
qed (simp_all add: exCodec_v1a exCodec_v1b exCodec_v0x defaultConfig_workers
      CidSwapper_Revert_def CidSwapper_unswapWorker_def unswapWorker_body_def
      CidSwapper_runWorkers_def run_defs finalSync_def word_le_nat_alt)

text \<open>
  C1, amended. On a store whose operations do not fail and whose keys are distinct, let
  the keys under the prefix be such that no key that one of them is swapped for is in
  the store, and that two of them that are swapped for the same key hold the same
  value (\<open>wellPlaced\<close>). Then, for every configuration and schedule of the workers, a real
  run with a notification channel returns no error, the reversal (with any
  configuration) of the records the run sent returns no error and the same count, and
  the store then holds exactly the keys and values it held before the run. Every key
  that a Get, Put or Delete of the run or of the reversal names is a key that decodes
  to an identifier of version 1 or more, or a key that was not in the store: a key of
  the store that decodes to version 0, or does not decode, is never read, written or
  deleted.
\<close>

theorem migrate_then_revert:
  assumes dist: "distinct (map fst (kv st))"
    and nf: "faults st = noFaults"
    and sc: "SwapCh cswap"
    and wp: "wellPlaced (newKeyOf cd) (map_of (kv st))
               {k \<in> fst ` set (kv st). prefix (Prefix cswap) k}"
  shows "\<exists>n recs st1 ch' st2.
           CidSwapper_Run cd cfg cswap False sched ([], st) = ((n, None), recs, st1) \<and>
           CidSwapper_Revert cfg' cswap' recs (ch, st1) = ((n, None), ch', st2) \<and>
           map_of (kv st2) = map_of (kv st) \<and>
           (\<exists>tr. trace st2 = trace st @ tr \<and>
                 touchedIn {z. newKeyOf cd z \<noteq> None \<or> map_of (kv st) z = None} tr)"
proof -
  let ?t = "newKeyOf cd"
  let ?M0 = "map_of (kv st)"
  let ?p = "Prefix cswap"
  let ?ks = "filter (prefix ?p) (map fst (kv st))"
  let ?A = "{z. ?t z \<noteq> None \<or> ?M0 z = None}"
  let ?st1 = "emit st (OpQuery ?p) None"
  let ?mk = "\<lambda>k. \<lparr>Key = k, Error = None\<rparr>"
  let ?sw = "\<lambda>k. \<lparr>Old = k, New = the (?t k)\<rparr>"
  have q: "Query st ?p = (Inr (map ?mk ?ks), ?st1)" by (rule Query_ok [OF nf])
  have d: "distinct ?ks" using dist by (simp add: distinct_map_filter)
  have K: "set ?ks = {k \<in> fst ` set (kv st). prefix ?p k}" by auto
  have nf1: "faults ?st1 = noFaults" using nf by simp
  have kv1: "map_of (kv ?st1) = ?M0" by simp
  have wp1: "wellPlaced ?t (map_of (kv ?st1)) (set ?ks)" using wp unfolding K kv1 .
  have fresh: "?M0 c = None" if "k \<in> set ?ks" and "?t k = Some c" for k c
    using wp that unfolding K wellPlaced_def by blast
  obtain outs recs st2 where
    p: "runPool cd cfg cswap False sched (map ?mk ?ks) ([], ?st1) = (outs, recs, st2)"
    by (rule prod_cases3)
  define ks where "ks = (if NWorkers cfg = 0 then [] else ?ks)"
  have sub: "set ks \<subseteq> set ?ks" and dk: "distinct ks"
    using d by (simp_all add: ks_def)
  have wpk: "wellPlaced ?t ?M0 (set ks)"
    using wp1 sub unfolding kv1 wellPlaced_def by blast
  have fw: "faults st2 = noFaults \<and> fwdStore ?t ?M0 (set ks) {} (map_of (kv st2)) \<and>
      recs = map ?sw (filter (\<lambda>k. ?t k \<noteq> None) ks) \<and>
      (\<forall>out \<in> set outs. snd out = 0) \<and>
      sum_list (map fst outs) = of_nat (length (filter (\<lambda>k. ?t k \<noteq> None) ks))"
  proof (cases "NWorkers cfg = 0")
    case True
    with p have "outs = []" and "recs = []" and "st2 = ?st1"
      by (simp_all add: runPool_def workerSteps_no_workers returned_def)
    with True nf show ?thesis by (simp add: ks_def fwdStore_def)
  next
    case False
    from forward_run [OF wp1 d sc nf1 False p] False show ?thesis
      by (simp add: ks_def)
  qed
  then have nf2: "faults st2 = noFaults"
    and fs: "fwdStore ?t ?M0 (set ks) {} (map_of (kv st2))"
    and recs: "recs = map ?sw (filter (\<lambda>k. ?t k \<noteq> None) ks)"
    and errs: "\<forall>out \<in> set outs. snd out = 0"
    and cnt: "sum_list (map fst outs) = of_nat (length (filter (\<lambda>k. ?t k \<noteq> None) ks))"
    by simp_all
  define n :: "64 word" where "n = of_nat (length (filter (\<lambda>k. ?t k \<noteq> None) ks))"
  have run: "CidSwapper_Run cd cfg cswap False sched ([], st) = ((n, None), recs, st2)"
    using q p runWorkers_ok [OF errs] cnt by (simp add: CidSwapper_Run_def n_def)
  from reverse_run [OF fs wpk dk nf2, of cfg' cswap' ch] obtain ch' st3 where
    u: "CidSwapper_unswapWorker cfg' cswap' recs (ch, st2) = ((n, 0), ch', st3)"
    and M: "map_of (kv st3) = ?M0"
    unfolding recs n_def by blast
  have rev: "CidSwapper_Revert cfg' cswap' recs (ch, st2) = ((n, None), ch', st3)"
    using u by (simp add: CidSwapper_Revert_def CidSwapper_runWorkers_def)
  have t1: "trace ?st1 = trace st @ [(OpQuery ?p, None)]" by simp
  have a1: "touchedIn ?A [(OpQuery ?p, None)]" by (simp add: touchedIn_def touches_def)
  have keys: "\<forall>r \<in> set (map ?mk ?ks). \<forall>c. ?t (Key r) = Some c \<longrightarrow> Key r \<in> ?A \<and> c \<in> ?A"
    using fresh by auto
  from runPool_touch [OF p t1 a1 keys] obtain tr2 where
    t2: "trace st2 = trace st @ tr2" and a2: "touchedIn ?A tr2" by blast
  have rk: "\<forall>rec \<in> set recs. Old rec \<in> ?A \<and> New rec \<in> ?A"
  proof
    fix rec assume "rec \<in> set recs"
    then obtain k where k: "k \<in> set ks" "?t k \<noteq> None" and r: "rec = ?sw k"
      unfolding recs by auto
    from k(2) obtain c where c: "?t k = Some c" by blast
    from k(1) sub have "k \<in> set ?ks" by blast
    from fresh [OF this c] c r show "Old rec \<in> ?A \<and> New rec \<in> ?A" by simp
  qed
  from unswapWorker_touch [OF u t2 a2 rk] obtain tr3 where
    t3: "trace st3 = trace st @ tr3" and a3: "touchedIn ?A tr3" by blast
  from run rev M t3 a3 show ?thesis by blast
qed

theorem migrate_then_revert_witness:
  "snd (fst (CidSwapper_Run exCodec defaultConfig exSwapper False [0, 1]
      ([], mkStore [([''blocks'', ''1aQx''], ''v''), ([''blocks'', ''1bQx''], ''v''),
                    ([''blocks'', ''Qy''], ''w''), ([''blocks'', ''zz''], ''u'')] noFaults))) = None \<and>
   fst (CidSwapper_Revert defaultConfig \<lparr>Prefix = [], SwapCh = False\<rparr>
      (fst (snd (CidSwapper_Run exCodec defaultConfig exSwapper False [0, 1]
         ([], mkStore [([''blocks'', ''1aQx''], ''v''), ([''blocks'', ''1bQx''], ''v''),
                       ([''blocks'', ''Qy''], ''w''), ([''blocks'', ''zz''], ''u'')] noFaults))))
      ([], snd (snd (CidSwapper_Run exCodec defaultConfig exSwapper False [0, 1]
         ([], mkStore [([''blocks'', ''1aQx''], ''v''), ([''blocks'', ''1bQx''], ''v''),
                       ([''blocks'', ''Qy''], ''w''), ([''blocks'', ''zz''], ''u'')] noFaults))))) =
   fst (CidSwapper_Run exCodec defaultConfig exSwapper False [0, 1]
      ([], mkStore [([''blocks'', ''1aQx''], ''v''), ([''blocks'', ''1bQx''], ''v''),
                    ([''blocks'', ''Qy''], ''w''), ([''blocks'', ''zz''], ''u'')] noFaults)) \<and>
   map_of (kv (snd (snd (CidSwapper_Revert defaultConfig \<lparr>Prefix = [], SwapCh = False\<rparr>
      (fst (snd (CidSwapper_Run exCodec defaultConfig exSwapper False [0, 1]
         ([], mkStore [([''blocks'', ''1aQx''], ''v''), ([''blocks'', ''1bQx''], ''v''),
                       ([''blocks'', ''Qy''], ''w''), ([''blocks'', ''zz''], ''u'')] noFaults))))
      ([], snd (snd (CidSwapper_Run exCodec defaultConfig exSwapper False [0, 1]
         ([], mkStore [([''blocks'', ''1aQx''], ''v''), ([''blocks'', ''1bQx''], ''v''),
                       ([''blocks'', ''Qy''], ''w''), ([''blocks'', ''zz''], ''u'')] noFaults)))))))) =
   map_of [([''blocks'', ''1aQx''], ''v''), ([''blocks'', ''1bQx''], ''v''),
           ([''blocks'', ''Qy''], ''w''), ([''blocks'', ''zz''], ''u'')]"
proof -
  let ?al = "[([''blocks'', ''1aQx''], ''v''), ([''blocks'', ''1bQx''], ''v''),
              ([''blocks'', ''Qy''], ''w''), ([''blocks'', ''zz''], ''u'')]"
  let ?st = "mkStore ?al noFaults"
  have n1: "newKeyOf exCodec [''blocks'', ''1aQx''] = Some [''blocks'', ''Qx'']"
    and n2: "newKeyOf exCodec [''blocks'', ''1bQx''] = Some [''blocks'', ''Qx'']"
    and n3: "newKeyOf exCodec [''blocks'', ''Qy''] = None"
    and n4: "newKeyOf exCodec [''blocks'', ''zz''] = None"
    by (simp_all add: newKeyOf_def exCodec_v1a exCodec_v1b exCodec_v0 exCodec_bad exCodec_mh
        Parent_def Child_def)
  have K: "{k \<in> fst ` set (kv ?st). prefix (Prefix exSwapper) k} =
      {[''blocks'', ''1aQx''], [''blocks'', ''1bQx''], [''blocks'', ''Qy''], [''blocks'', ''zz'']}"
    by (auto simp: mkStore_def exSwapper_def)
  have h1: "distinct (map fst (kv ?st))" by (simp add: mkStore_def)
  have h2: "faults ?st = noFaults" by (simp add: mkStore_def)
  have h3: "SwapCh exSwapper" by (simp add: exSwapper_def)
  have h4: "wellPlaced (newKeyOf exCodec) (map_of (kv ?st))
      {k \<in> fst ` set (kv ?st). prefix (Prefix exSwapper) k}"
    unfolding K by (simp add: wellPlaced_def n1 n2 n3 n4 mkStore_def)
  from migrate_then_revert [OF h1 h2 h3 h4, of defaultConfig "[0, 1]" defaultConfig
      "\<lparr>Prefix = [], SwapCh = False\<rparr>" "[]"]
  obtain n recs st1 ch' st2 where
    "CidSwapper_Run exCodec defaultConfig exSwapper False [0, 1] ([], ?st) =
       ((n, None), recs, st1)"
    "CidSwapper_Revert defaultConfig \<lparr>Prefix = [], SwapCh = False\<rparr> recs ([], st1) =
       ((n, None), ch', st2)"
    "map_of (kv st2) = map_of (kv ?st)"
    by blast
  then show ?thesis by (simp add: mkStore_def)
qed

subsection \<open>The reversal of two records of one new key\<close>




subsection \<open>Two keys of one multihash (C5)\<close>




end
